theory Spec2Isabelle
  imports Complex_Main "HOL-Library.Multiset"
begin

section \<open>Python numbers\<close>

text \<open>
  \<open>keep_ratio\<close> is annotated \<open>float\<close> and its default is the \<open>int\<close> 1, so it is either
  a Python \<open>int\<close> or a Python \<open>float\<close>. A \<open>float\<close> is an IEEE 754 binary64 number: a
  finite one is given by its value, and there are the two infinities and NaN. The sign of
  zero plays no part here.
\<close>

datatype pyfloat = Fin real | PInf | NInf | NaN

datatype pynum = PyInt int | PyFloat pyfloat

text \<open>Rounding to the nearest integer, a tie going to the even one.\<close>

definition round_even :: "real \<Rightarrow> int" where
  "round_even q =
     (let f = \<lfloor>q\<rfloor> in
      if q - of_int f < 1 / 2 then f
      else if 1 / 2 < q - of_int f then f + 1
      else if even f then f else f + 1)"

text \<open>
  The \<open>float\<close> nearest to a real number. A binary64 number has 53 significant bits, so
  between \<open>2^e\<close> and \<open>2^(e+1)\<close> the floats are the multiples of \<open>2^(e-52)\<close>; below
  \<open>2^(-1022)\<close> they are the multiples of \<open>2^(-1074)\<close>. The result is the nearest
  multiple, a tie going to the even one, and it is an infinity when that multiple has
  reached \<open>2^1024\<close>.
\<close>

definition overflow_threshold :: real where
  "overflow_threshold = 2 ^ 1024"

definition round_double :: "real \<Rightarrow> pyfloat" where
  "round_double x =
     (if x = 0 then Fin 0
      else
        let e = max \<lfloor>log 2 \<bar>x\<bar>\<rfloor> (- 1022);
            u = 2 powr of_int (e - 52);
            y = of_int (round_even (x / u)) * u
        in if overflow_threshold \<le> \<bar>y\<bar> then (if 0 < x then PInf else NInf) else Fin y)"

text \<open>The product \<open>f * b\<close> of a float \<open>f\<close> and a finite float of value \<open>b\<close>.\<close>

definition float_mul :: "pyfloat \<Rightarrow> real \<Rightarrow> pyfloat" where
  "float_mul f b =
     (case f of
        Fin a \<Rightarrow> round_double (a * b)
      | PInf \<Rightarrow> if b = 0 then NaN else if 0 < b then PInf else NInf
      | NInf \<Rightarrow> if b = 0 then NaN else if 0 < b then NInf else PInf
      | NaN \<Rightarrow> NaN)"

text \<open>The value of a number that is finite.\<close>

definition ratio_value :: "pynum \<Rightarrow> real option" where
  "ratio_value q =
     (case q of
        PyInt i \<Rightarrow> Some (of_int i)
      | PyFloat (Fin r) \<Rightarrow> Some r
      | PyFloat _ \<Rightarrow> None)"

section \<open>Tensors\<close>

text \<open>
  A torch tensor carries its size (\<open>shape\<close>) and its elements. The elements are nested
  lists, one level per axis, so the rank of a tensor is part of its type; the size is kept
  beside them because nested lists alone cannot tell \<open>(0, 8, 13, 64)\<close> from
  \<open>(0, 1, 1, 1)\<close>. The elements of a key or value tensor are finite floats, given by
  their values; the function only moves them and takes the norm of a row.
\<close>

record 'd tensor =
  shape :: "nat list"
  elems :: 'd

type_synonym 'a tensor2 = "'a list list tensor"
type_synonym 'a tensor3 = "'a list list list tensor"
type_synonym 'a tensor4 = "'a list list list list tensor"

text \<open>A key or value tensor has size \<open>(batch_size, num_heads, seq_len, head_dim)\<close>.\<close>

definition wf4 :: "'a tensor4 \<Rightarrow> bool" where
  "wf4 t \<longleftrightarrow>
     length (shape t) = 4 \<and> length (elems t) = shape t ! 0 \<and>
     list_all (\<lambda>b. length b = shape t ! 1 \<and>
       list_all (\<lambda>h. length h = shape t ! 2 \<and>
         list_all (\<lambda>r. length r = shape t ! 3) h) b) (elems t)"

text \<open>\<open>t.size(d)\<close>\<close>

definition size_dim :: "'d tensor \<Rightarrow> nat \<Rightarrow> nat" where
  "size_dim t d = shape t ! d"

text \<open>
  The failures of the function: the \<open>OverflowError\<close> and the \<open>ValueError\<close> of
  \<open>math.ceil\<close>, the \<open>RuntimeError\<close>s that torch raises, one constructor for each check,
  and the \<open>TypeError\<close> of Python when the argument is not a sequence of pairs of tensors.
\<close>

datatype error =
  Overflow_error
  | Value_error
  | Expand_leading_dim
  | Expand_size_mismatch
  | Expand_too_few_sizes
  | Gather_size_mismatch
  | Gather_index_out_of_bounds
  | Type_error

subsection \<open>\<open>torch.norm(keys, p=2, dim=-1)\<close>\<close>

text \<open>
  \<open>torch.norm\<close> with \<open>dim=-1\<close> removes the last axis: every row along that axis, the
  vector of one token in one head, is replaced by its 2-norm, computed in the
  floating-point arithmetic of the tensor. The value that torch computes for a row is a
  parameter \<open>nrm\<close> of the model. It is a function of the row alone, and its values are of a
  linearly ordered type: floats, in the order in which \<open>argsort\<close> compares them.
\<close>

definition norm_last :: "(real list \<Rightarrow> 'n) \<Rightarrow> real tensor4 \<Rightarrow> 'n tensor3" where
  "norm_last nrm t = \<lparr>shape = butlast (shape t), elems = map (map (map nrm)) (elems t)\<rparr>"

text \<open>
  The 2-norm itself, the square root of the sum of the squares of the entries of the row.
  It is what \<open>torch.norm\<close> returns for a row on which its arithmetic does not round.
\<close>

definition l2_norm :: "real list \<Rightarrow> real" where
  "l2_norm v = sqrt (sum_list (map (\<lambda>x. x * x) v))"

subsection \<open>\<open>squeeze(-1)\<close>\<close>

text \<open>
  \<open>squeeze(-1)\<close> removes the last axis when its size is 1 and does nothing otherwise; the
  result has rank 2 in the first case and rank 3 in the second.
\<close>

datatype 'a squeezed = Dropped "'a tensor2" | Kept "'a tensor3"

definition squeeze_last :: "'a tensor3 \<Rightarrow> 'a squeezed" where
  "squeeze_last t =
     (if last (shape t) = 1
      then Dropped \<lparr>shape = butlast (shape t), elems = map concat (elems t)\<rparr>
      else Kept t)"

subsection \<open>\<open>argsort(dim=-1)\<close>\<close>

text \<open>
  \<open>argsort\<close> is called with its defaults (ascending, \<open>stable=False\<close>): on every list along
  the last axis it returns the positions of the list in ascending order of their elements,
  and torch does not say in which order equal elements come. The sorting routine is
  therefore a parameter \<open>srt\<close> of the model, and \<open>argsort_spec\<close> is what torch promises of
  it.
\<close>

definition argsort_spec :: "('n::linorder list \<Rightarrow> nat list) \<Rightarrow> bool" where
  "argsort_spec srt \<longleftrightarrow>
     (\<forall>xs. mset (srt xs) = mset [0..<length xs] \<and> sorted (map (\<lambda>i. xs ! i) (srt xs)))"

definition argsort2 :: "('n list \<Rightarrow> nat list) \<Rightarrow> 'n tensor2 \<Rightarrow> nat tensor2" where
  "argsort2 srt t = \<lparr>shape = shape t, elems = map srt (elems t)\<rparr>"

definition argsort3 :: "('n list \<Rightarrow> nat list) \<Rightarrow> 'n tensor3 \<Rightarrow> nat tensor3" where
  "argsort3 srt t = \<lparr>shape = shape t, elems = map (map srt) (elems t)\<rparr>"

text \<open>The stable sort: equal elements keep their original order.\<close>

definition stable_argsort :: "'n::linorder list \<Rightarrow> nat list" where
  "stable_argsort xs = sort_key (\<lambda>i. xs ! i) [0..<length xs]"

subsection \<open>\<open>unsqueeze(-1)\<close>\<close>

definition unsqueeze2 :: "'a tensor2 \<Rightarrow> 'a tensor3" where
  "unsqueeze2 t = \<lparr>shape = shape t @ [1], elems = map (map (\<lambda>x. [x])) (elems t)\<rparr>"

definition unsqueeze3 :: "'a tensor3 \<Rightarrow> 'a tensor4" where
  "unsqueeze3 t = \<lparr>shape = shape t @ [1], elems = map (map (map (\<lambda>x. [x]))) (elems t)\<rparr>"

subsection \<open>\<open>expand(-1, -1, -1, token_dim)\<close>\<close>

text \<open>
  torch aligns the requested sizes with the tensor's size from the last axis backwards.
  A requested \<open>-1\<close> keeps the axis; another size must equal the axis or the axis must have
  size 1. Requested sizes beyond the tensor's rank make new leading axes, and \<open>-1\<close> is
  refused for them. Both lists are given last axis first.
\<close>

fun expand_sizes_rev :: "int list \<Rightarrow> nat list \<Rightarrow> error + nat list" where
  "expand_sizes_rev [] [] = Inr []"
| "expand_sizes_rev [] (c # cs) = Inl Expand_too_few_sizes"
| "expand_sizes_rev (s # ss) [] =
     (if s = -1 then Inl Expand_leading_dim
      else case expand_sizes_rev ss [] of Inl e \<Rightarrow> Inl e | Inr r \<Rightarrow> Inr (nat s # r))"
| "expand_sizes_rev (s # ss) (c # cs) =
     (if s = -1 \<or> s = int c then
        (case expand_sizes_rev ss cs of Inl e \<Rightarrow> Inl e | Inr r \<Rightarrow> Inr (c # r))
      else if c = 1 then
        (case expand_sizes_rev ss cs of Inl e \<Rightarrow> Inl e | Inr r \<Rightarrow> Inr (nat s # r))
      else Inl Expand_size_mismatch)"

definition expand_sizes :: "int list \<Rightarrow> nat list \<Rightarrow> error + nat list" where
  "expand_sizes sizes cur =
     (case expand_sizes_rev (rev sizes) (rev cur) of Inl e \<Rightarrow> Inl e | Inr r \<Rightarrow> Inr (rev r))"

text \<open>
  The elements of the expanded tensor, for the one request the function makes: the first
  three sizes are \<open>-1\<close>, so only the last axis can grow, from size 1 to \<open>token_dim\<close>.
\<close>

definition broadcast_row :: "nat \<Rightarrow> 'a list \<Rightarrow> 'a list" where
  "broadcast_row d r = (if length r = d then r else concat (map (replicate d) r))"

definition expand4 :: "'a tensor4 \<Rightarrow> nat \<Rightarrow> error + 'a tensor4" where
  "expand4 t token_dim =
     (case expand_sizes [-1, -1, -1, int token_dim] (shape t) of
        Inl e \<Rightarrow> Inl e
      | Inr s \<Rightarrow> Inr \<lparr>shape = s, elems = map (map (map (broadcast_row token_dim))) (elems t)\<rparr>)"

text \<open>
  The same request on a tensor of rank 3 asks for a new leading axis of size \<open>-1\<close>.
\<close>

definition expand3 :: "'a tensor3 \<Rightarrow> nat \<Rightarrow> error + 'a tensor4" where
  "expand3 t token_dim =
     (case expand_sizes [-1, -1, -1, int token_dim] (shape t) of
        Inl e \<Rightarrow> Inl e
      | Inr s \<Rightarrow> Inr \<lparr>shape = s,
          elems = replicate (hd s) (map (map (broadcast_row token_dim)) (elems t))\<rparr>)"

subsection \<open>\<open>torch.gather(input, dim=2, index)\<close>\<close>

text \<open>
  An index tensor without elements (one of its sizes is 0) is accepted as it is: torch
  returns the empty tensor of the size of the index tensor and checks nothing. Otherwise
  \<open>gather\<close> along axis 2 needs the index tensor to be no larger than the input on every
  other axis and every index to be a position of axis 2 of the input. The result has the
  size of the index tensor, and
  \<open>out[b][h][t][d] = input[b][h][index[b][h][t][d]][d]\<close>.
\<close>

definition gather2 :: "'a tensor4 \<Rightarrow> nat tensor4 \<Rightarrow> error + 'a tensor4" where
  "gather2 input index =
     (if 0 \<in> set (shape index)
      then Inr \<lparr>shape = shape index, elems = map (map (map (\<lambda>r. []))) (elems index)\<rparr>
      else if \<not> (shape index ! 0 \<le> shape input ! 0 \<and> shape index ! 1 \<le> shape input ! 1 \<and>
             shape index ! 3 \<le> shape input ! 3)
      then Inl Gather_size_mismatch
      else if \<not> list_all (list_all (list_all (list_all (\<lambda>i. i < shape input ! 2)))) (elems index)
      then Inl Gather_index_out_of_bounds
      else Inr \<lparr>shape = shape index,
        elems = map2 (\<lambda>inp_b idx_b.
                  map2 (\<lambda>inp_h idx_h.
                    map (\<lambda>idx_r. map2 (\<lambda>d i. inp_h ! i ! d) [0..<length idx_r] idx_r) idx_h)
                  inp_b idx_b)
                (elems input) (elems index)\<rparr>)"

subsection \<open>The slice \<open>t[:, :, :k, :]\<close>\<close>

text \<open>
  Python's slice \<open>[:k]\<close> of a sequence of length \<open>n\<close>: a negative stop counts from the end,
  and the stop is then clamped into \<open>0..n\<close>.
\<close>

definition slice_stop :: "nat \<Rightarrow> int \<Rightarrow> nat" where
  "slice_stop n k = (if k < 0 then nat (int n + k) else min n (nat k))"

definition slice_seq :: "int \<Rightarrow> 'a tensor4 \<Rightarrow> 'a tensor4" where
  "slice_seq k t =
     \<lparr>shape = (shape t)[2 := slice_stop (shape t ! 2) k],
      elems = map (map (take (slice_stop (shape t ! 2) k))) (elems t)\<rparr>"

section \<open>The function \<open>l2_compress\<close>\<close>

text \<open>
  The function of the notebook, without its docstring:
  \<^verbatim>\<open>
  def l2_compress(past_key_values, keep_ratio: float = 1, prune_after: int = 2048,
                  skip_layers: List = [], **kwargs):
      # both key and value have shape (batch_size, num_heads, seq_len, head_dim)
      # need a list not a tuple
      past_key_values = list(past_key_values)
      # iterate over the past key values, should we filter out some layers here ?
      for layer, kv in enumerate(past_key_values):
          if kv[0].size(2) < prune_after:
              continue
          keys, values = kv
          token_dim = keys.shape[-1]
          tokens_to_keep = ceil(keep_ratio * keys.size(2))
          # sort kv cache by key norm
          token_norms = torch.norm(keys, p=2, dim=-1)
          # sort by norm
          sorted_indices = token_norms.squeeze(-1).argsort(dim=-1)
          sorted_indices_expanded = sorted_indices.unsqueeze(-1).expand(-1, -1, -1, token_dim)
          # apply sort
          sorted_keys = torch.gather(keys, dim=2, index=sorted_indices_expanded)
          sorted_values = torch.gather(values, dim=2, index=sorted_indices_expanded)
          if layer not in skip_layers:
              past_key_values[layer] = (sorted_keys[:, :, :tokens_to_keep, :],
                                        sorted_values[:, :, :tokens_to_keep, :])
      return past_key_values
  \<close>
  A layer is a pair of a key tensor and a value tensor; \<open>keep_ratio\<close> is a Python number,
  \<open>prune_after\<close> an integer and \<open>skip_layers\<close> a list of layer indices.
\<close>

type_synonym layer_cache = "real tensor4 \<times> real tensor4"

text \<open>
  The layers the function is written for: a key tensor and a value tensor of rank 4 and of
  the same size.
\<close>

definition well_shaped :: "layer_cache \<Rightarrow> bool" where
  "well_shaped kv \<longleftrightarrow> wf4 (fst kv) \<and> wf4 (snd kv) \<and> shape (snd kv) = shape (fst kv)"

text \<open>The token rows of one (batch, head) slice: \<open>t[b, h, :, :]\<close>.\<close>

definition slice_of :: "'a tensor4 \<Rightarrow> nat \<Rightarrow> nat \<Rightarrow> 'a list list" where
  "slice_of t b h = elems t ! b ! h"

text \<open>
  \<open>ceil(keep_ratio * keys.size(2))\<close>, where \<open>keys.size(2)\<close> is an \<open>int\<close>. The product of two
  \<open>int\<close>s is exact and \<open>math.ceil\<close> returns it. For a \<open>float\<close> \<open>keep_ratio\<close> Python converts
  the \<open>int\<close> to the nearest \<open>float\<close>, with an \<open>OverflowError\<close> when there is none, and
  multiplies the two floats, which rounds the product; \<open>math.ceil\<close> of a finite float is
  the exact ceiling of its value, \<open>math.ceil\<close> of an infinity raises \<open>OverflowError\<close> and
  \<open>math.ceil\<close> of NaN raises \<open>ValueError\<close>.
\<close>

definition tokens_to_keep :: "pynum \<Rightarrow> nat \<Rightarrow> error + int" where
  "tokens_to_keep keep_ratio n =
     (case keep_ratio of
        PyInt i \<Rightarrow> Inr (i * int n)
      | PyFloat f \<Rightarrow>
          (case round_double (real n) of
             Fin m \<Rightarrow>
               (case float_mul f m of
                  Fin y \<Rightarrow> Inr \<lceil>y\<rceil>
                | NaN \<Rightarrow> Inl Value_error
                | _ \<Rightarrow> Inl Overflow_error)
           | _ \<Rightarrow> Inl Overflow_error))"

definition sorted_indices_expanded ::
  "('n list \<Rightarrow> nat list) \<Rightarrow> 'n tensor3 \<Rightarrow> nat \<Rightarrow> error + nat tensor4" where
  "sorted_indices_expanded srt token_norms token_dim =
     (case squeeze_last token_norms of
        Dropped t \<Rightarrow> expand3 (unsqueeze2 (argsort2 srt t)) token_dim
      | Kept t \<Rightarrow> expand4 (unsqueeze3 (argsort3 srt t)) token_dim)"

text \<open>
  One turn of the loop body, for the layer \<open>kv\<close> at index \<open>layer\<close>: the result is the entry
  of the list at that index after the turn, or the exception that ends the call. The
  statements run in the order of the source: \<open>tokens_to_keep\<close> is computed before the
  norms, and the test of \<open>skip_layers\<close> comes last, so a skipped layer with at least
  \<open>prune_after\<close> tokens still goes through \<open>ceil\<close>, the sort and both \<open>gather\<close>s, and only
  the assignment is left out.
\<close>

definition compress_layer ::
  "('n list \<Rightarrow> nat list) \<Rightarrow> (real list \<Rightarrow> 'n) \<Rightarrow> pynum \<Rightarrow> int \<Rightarrow> nat list \<Rightarrow> nat
     \<Rightarrow> layer_cache \<Rightarrow> error + layer_cache" where
  "compress_layer srt nrm keep_ratio prune_after skip_layers layer kv =
     (if int (size_dim (fst kv) 2) < prune_after then Inr kv
      else
        let keys = fst kv; vals = snd kv;
            token_dim = last (shape keys)
        in case tokens_to_keep keep_ratio (size_dim keys 2) of
             Inl e \<Rightarrow> Inl e
           | Inr k \<Rightarrow>
               (case sorted_indices_expanded srt (norm_last nrm keys) token_dim of
                  Inl e \<Rightarrow> Inl e
                | Inr idx \<Rightarrow>
                    (case gather2 keys idx of
                       Inl e \<Rightarrow> Inl e
                     | Inr sorted_keys \<Rightarrow>
                         (case gather2 vals idx of
                            Inl e \<Rightarrow> Inl e
                          | Inr sorted_values \<Rightarrow>
                              if layer \<notin> set skip_layers
                              then Inr (slice_seq k sorted_keys, slice_seq k sorted_values)
                              else Inr kv))))"

fun compress_from ::
  "('n list \<Rightarrow> nat list) \<Rightarrow> (real list \<Rightarrow> 'n) \<Rightarrow> pynum \<Rightarrow> int \<Rightarrow> nat list \<Rightarrow> nat
     \<Rightarrow> layer_cache list \<Rightarrow> error + layer_cache list" where
  "compress_from srt nrm keep_ratio prune_after skip_layers layer [] = Inr []"
| "compress_from srt nrm keep_ratio prune_after skip_layers layer (kv # kvs) =
     (case compress_layer srt nrm keep_ratio prune_after skip_layers layer kv of
        Inl e \<Rightarrow> Inl e
      | Inr kv' \<Rightarrow>
          (case compress_from srt nrm keep_ratio prune_after skip_layers (Suc layer) kvs of
             Inl e \<Rightarrow> Inl e
           | Inr rest \<Rightarrow> Inr (kv' # rest)))"

definition l2_compress ::
  "('n list \<Rightarrow> nat list) \<Rightarrow> (real list \<Rightarrow> 'n) \<Rightarrow> layer_cache list \<Rightarrow> pynum \<Rightarrow> int
     \<Rightarrow> nat list \<Rightarrow> error + layer_cache list" where
  "l2_compress srt nrm past_key_values keep_ratio prune_after skip_layers =
     compress_from srt nrm keep_ratio prune_after skip_layers 0 past_key_values"

text \<open>
  The layers on which \<open>torch.gather\<close> refuses the index tensor that is built from the
  keys: the key tensor has elements, and the value tensor is smaller than the key tensor
  on one of the four axes.
\<close>

definition values_too_small :: "layer_cache \<Rightarrow> bool" where
  "values_too_small kv \<longleftrightarrow>
     0 \<notin> set (shape (fst kv)) \<and>
     (size_dim (snd kv) 0 < size_dim (fst kv) 0 \<or>
      size_dim (snd kv) 1 < size_dim (fst kv) 1 \<or>
      size_dim (snd kv) 2 < size_dim (fst kv) 2 \<or>
      size_dim (snd kv) 3 < size_dim (fst kv) 3)"

section \<open>The function on a store of objects\<close>













section \<open>Example numbers and tensors\<close>

text \<open>
  The floats that Python reads from \<open>0.6\<close>, \<open>0.14\<close> and \<open>0.1\<close>: none of the three decimal
  numbers is a binary64 number, and the float is the nearest one.
\<close>

definition float_0_6 :: pynum where
  "float_0_6 = PyFloat (Fin (5404319552844595 / 9007199254740992))"

definition float_0_14 :: pynum where
  "float_0_14 = PyFloat (Fin (1261007895663739 / 9007199254740992))"

definition float_0_1 :: pynum where
  "float_0_1 = PyFloat (Fin (3602879701896397 / 36028797018963968))"

text \<open>A tensor with a batch of one and a single head, from its token rows of width \<open>d\<close>.\<close>

definition one_slice :: "nat \<Rightarrow> 'a list list \<Rightarrow> 'a tensor4" where
  "one_slice d rows = \<lparr>shape = [1, 1, length rows, d], elems = [[rows]]\<rparr>"

text \<open>
  A snapshot of three layers, each with a batch of one, a single head and rows of width
  one: two layers of three tokens and one layer of two tokens. With \<open>keep_ratio = 0.6\<close>,
  \<open>prune_after = 3\<close> and \<open>skip_layers = [0]\<close> the first layer is skipped, the second is
  compacted to \<open>ceil(0.6 * 3) = 2\<close> tokens and the third is too short.
\<close>

definition example_cache :: "layer_cache list" where
  "example_cache =
     [(one_slice 1 [[3], [1], [2]], one_slice 1 [[30], [10], [20]]),
      (one_slice 1 [[3], [1], [2]], one_slice 1 [[30], [10], [20]]),
      (one_slice 1 [[2], [1]], one_slice 1 [[20], [10]])]"

definition example_result :: "layer_cache list" where
  "example_result =
     [(one_slice 1 [[3], [1], [2]], one_slice 1 [[30], [10], [20]]),
      (one_slice 1 [[1], [2]], one_slice 1 [[10], [20]]),
      (one_slice 1 [[2], [1]], one_slice 1 [[20], [10]])]"


text \<open>
  A layer of three tokens with rows of width two. The norms of the three key rows are 6, 5
  and 4.5, so the order of the norms is the reverse of the order of the positions; it
  differs from the order of the first entries (6, 3, 4.5), of the last entries (0, 4, 0),
  of the largest entries (6, 4, 4.5) and of the sums of the entries (6, 7, 4.5).
\<close>

definition norm_example :: layer_cache where
  "norm_example =
     (one_slice 2 [[6, 0], [3, 4], [9 / 2, 0]], one_slice 2 [[10, 11], [20, 21], [30, 31]])"

section \<open>Facts about the model\<close>

subsection \<open>Python numbers\<close>

lemma round_even_of_int [simp]: "round_even (of_int m) = m"
  by (simp add: round_even_def)

lemma round_even_le: "q \<le> of_int m \<Longrightarrow> round_even q \<le> m"
proof -
  assume q: "q \<le> of_int m"
  have f: "\<lfloor>q\<rfloor> \<le> m" using q by (simp add: floor_le_iff)
  show ?thesis
  proof (cases "\<lfloor>q\<rfloor> = m")
    case True
    then have "q - of_int \<lfloor>q\<rfloor> \<le> 0" using q by simp
    then show ?thesis using True by (simp add: round_even_def Let_def)
  next
    case False
    then have "\<lfloor>q\<rfloor> + 1 \<le> m" using f by simp
    then show ?thesis using f by (simp add: round_even_def Let_def)
  qed
qed

lemma round_even_ge: "of_int m \<le> q \<Longrightarrow> m \<le> round_even q"
proof -
  assume "of_int m \<le> q"
  then have "m \<le> \<lfloor>q\<rfloor>" by (simp add: le_floor_iff)
  then show ?thesis by (simp add: round_even_def Let_def)
qed

lemma floor_log2_eq:
  assumes "2 powr of_int e \<le> x" "x < 2 powr of_int (e + 1)"
  shows "\<lfloor>log 2 x\<rfloor> = e"
proof -
  have x: "0 < x" using assms(1) by (smt (verit) powr_gt_zero)
  have "of_int e \<le> log 2 x" using assms(1) x by (simp add: le_log_iff)
  moreover have "log 2 x < of_int (e + 1)" using assms(2) x by (simp add: log_less_iff)
  ultimately show ?thesis by (simp add: floor_eq_iff)
qed

lemma floor_log2_bounds:
  assumes "0 < x"
  shows "2 powr of_int \<lfloor>log 2 x\<rfloor> \<le> x" and "x < 2 powr of_int (\<lfloor>log 2 x\<rfloor> + 1)"
proof -
  have "of_int \<lfloor>log 2 x\<rfloor> \<le> log 2 x" by simp
  then show "2 powr of_int \<lfloor>log 2 x\<rfloor> \<le> x" using assms by (simp add: powr_le_iff)
  have "log 2 x < of_int (\<lfloor>log 2 x\<rfloor> + 1)" by linarith
  then show "x < 2 powr of_int (\<lfloor>log 2 x\<rfloor> + 1)" using assms by (simp add: less_powr_iff)
qed

lemma round_double_unfold:
  assumes "x \<noteq> 0"
  obtains e u y where "e = max \<lfloor>log 2 \<bar>x\<bar>\<rfloor> (- 1022)" "u = 2 powr of_int (e - 52)" "0 < u"
    "y = of_int (round_even (x / u)) * u"
    "round_double x = (if overflow_threshold \<le> \<bar>y\<bar> then (if 0 < x then PInf else NInf) else Fin y)"
proof -
  define e where "e = max \<lfloor>log 2 \<bar>x\<bar>\<rfloor> (- 1022)"
  define u :: real where "u = 2 powr of_int (e - 52)"
  define y where "y = of_int (round_even (x / u)) * u"
  have "0 < u" by (simp add: u_def)
  moreover have "round_double x = (if overflow_threshold \<le> \<bar>y\<bar> then (if 0 < x then PInf else NInf) else Fin y)"
    using assms by (simp add: round_double_def Let_def e_def u_def y_def)
  ultimately show thesis using that e_def u_def y_def by blast
qed

lemma ulp_small:
  assumes "e \<le> 52" and u: "u = 2 powr of_int (e - 52)"
  shows "real m = of_int (int m * 2 ^ nat (52 - e)) * u"
proof -
  have "(2::real) powr real_of_int (e - 52) =
          (if 0 \<le> e - 52 then 2 ^ nat (e - 52) else inverse (2 ^ nat (- (e - 52))))"
    by (rule powr_real_of_int) simp
  then have "u = inverse (2 ^ nat (52 - e))"
    using assms(1) unfolding u by (cases "e = 52") simp_all
  then show ?thesis by simp
qed

lemma two_powr_ge:
  assumes "int n \<le> e"
  shows "(2::real) ^ n \<le> 2 powr of_int e"
proof -
  have "(2::real) powr real_of_int e = (if 0 \<le> e then 2 ^ nat e else inverse (2 ^ nat (- e)))"
    by (rule powr_real_of_int) simp
  then have "(2::real) powr of_int e = 2 ^ nat e" using assms by simp
  moreover have "(2::real) ^ n \<le> 2 ^ nat e" using assms by (intro power_increasing) simp_all
  ultimately show ?thesis by simp
qed

lemma round_double_upper:
  assumes "0 \<le> x" "x \<le> real m" "m \<le> 2 ^ 53"
  shows "\<exists>y. round_double x = Fin y \<and> 0 \<le> y \<and> y \<le> real m"
proof (cases "x = 0")
  case True
  then show ?thesis by (simp add: round_double_def)
next
  case False
  then have x: "0 < x" using assms(1) by simp
  from False obtain e u y where e: "e = max \<lfloor>log 2 \<bar>x\<bar>\<rfloor> (- 1022)"
    and u: "u = 2 powr of_int (e - 52)" and u0: "0 < u"
    and y: "y = of_int (round_even (x / u)) * u"
    and rd: "round_double x = (if overflow_threshold \<le> \<bar>y\<bar> then (if 0 < x then PInf else NInf) else Fin y)"
    by (rule round_double_unfold)
  have "0 \<le> round_even (x / u)" using round_even_ge [of 0 "x / u"] x u0 by simp
  then have y0: "0 \<le> y" using u0 by (simp add: y)
  have m53: "real m \<le> 2 ^ 53" using of_nat_mono [OF assms(3), where 'a = real] by simp
  have ym: "y \<le> real m"
  proof (cases "e \<le> 52")
    case True
    let ?M = "int m * 2 ^ nat (52 - e)"
    have m: "real m = of_int ?M * u" using True u by (rule ulp_small)
    then have "x \<le> of_int ?M * u" using assms(2) by linarith
    then have "x / u \<le> of_int ?M" using u0 by (simp only: pos_divide_le_eq)
    then have "round_even (x / u) \<le> ?M" by (rule round_even_le)
    then have "of_int (round_even (x / u)) * u \<le> of_int ?M * u"
      using u0 by (simp only: mult_le_cancel_right_pos of_int_le_iff)
    then show ?thesis using m y by linarith
  next
    case False
    then have e53: "53 \<le> e" by simp
    then have el: "e = \<lfloor>log 2 x\<rfloor>" using e x by simp
    have "2 powr of_int e \<le> x" using floor_log2_bounds(1) [OF x] el by simp
    moreover have "(2::real) ^ 53 \<le> 2 powr of_int e" using e53 by (intro two_powr_ge) simp
    ultimately have "2 ^ 53 \<le> x" by linarith
    then have xm: "x = 2 ^ 53" and "real m = 2 ^ 53" using assms(2) m53 by simp_all
    have "\<lfloor>log 2 x\<rfloor> = 53" unfolding xm by (rule floor_log2_eq) simp_all
    then have "e = 53" using el by simp
    then have "u = 2" using u by simp
    then have "x / u = of_int (2 ^ 52)" using xm by simp
    then have "round_even (x / u) = 2 ^ 52" by (simp only: round_even_of_int)
    then have "y = 2 ^ 53" using y \<open>u = 2\<close> by simp
    then show ?thesis using \<open>real m = 2 ^ 53\<close> by simp
  qed
  have "(2::real) ^ 53 < 2 ^ 1024" by (rule power_strict_increasing) simp_all
  then have "\<bar>y\<bar> < overflow_threshold" using y0 ym m53 by (simp only: overflow_threshold_def abs_of_nonneg)
  then show ?thesis using rd y0 ym by simp
qed

lemma round_double_lower:
  assumes "real m \<le> x" "m \<le> 2 ^ 53"
  shows "round_double x = PInf \<or> (\<exists>y. round_double x = Fin y \<and> real m \<le> y)"
proof (cases "x = 0")
  case True
  then show ?thesis using assms(1) by (simp add: round_double_def)
next
  case False
  then have x: "0 < x" using assms(1) by (smt (verit) of_nat_0_le_iff)
  from False obtain e u y where e: "e = max \<lfloor>log 2 \<bar>x\<bar>\<rfloor> (- 1022)"
    and u: "u = 2 powr of_int (e - 52)" and u0: "0 < u"
    and y: "y = of_int (round_even (x / u)) * u"
    and rd: "round_double x = (if overflow_threshold \<le> \<bar>y\<bar> then (if 0 < x then PInf else NInf) else Fin y)"
    by (rule round_double_unfold)
  have m53: "real m \<le> 2 ^ 53" using of_nat_mono [OF assms(2), where 'a = real] by simp
  have ym: "real m \<le> y"
  proof (cases "e \<le> 52")
    case True
    let ?M = "int m * 2 ^ nat (52 - e)"
    have m: "real m = of_int ?M * u" using True u by (rule ulp_small)
    then have "of_int ?M * u \<le> x" using assms(1) by linarith
    then have "of_int ?M \<le> x / u" using u0 by (simp only: pos_le_divide_eq)
    then have "?M \<le> round_even (x / u)" by (rule round_even_ge)
    then have "of_int ?M * u \<le> of_int (round_even (x / u)) * u"
      using u0 by (simp only: mult_le_cancel_right_pos of_int_le_iff)
    then show ?thesis using m y by linarith
  next
    case False
    then have e53: "53 \<le> e" by simp
    then have el: "e = \<lfloor>log 2 x\<rfloor>" using e x by simp
    have xe: "2 powr of_int e \<le> x" using floor_log2_bounds(1) [OF x] el by simp
    have "(2::real) powr of_int e = 2 powr 52 * 2 powr of_int (e - 52)"
      by (simp only: powr_add [symmetric]) simp
    then have pe: "2 powr of_int e = of_int (2 ^ 52) * u" unfolding u by simp
    then have "of_int (2 ^ 52) * u \<le> x" using xe by linarith
    then have "of_int (2 ^ 52) \<le> x / u" using u0 by (simp only: pos_le_divide_eq)
    then have "2 ^ 52 \<le> round_even (x / u)" by (rule round_even_ge)
    then have "of_int (2 ^ 52) * u \<le> of_int (round_even (x / u)) * u"
      using u0 by (simp only: mult_le_cancel_right_pos of_int_le_iff)
    then have "2 powr of_int e \<le> y" using y pe by linarith
    moreover have "(2::real) ^ 53 \<le> 2 powr of_int e" using e53 by (intro two_powr_ge) simp
    ultimately show ?thesis using m53 by linarith
  qed
  show ?thesis using rd x ym by simp
qed

lemma round_double_nat:
  assumes "m \<le> 2 ^ 53"
  shows "round_double (real m) = Fin (real m)"
proof -
  obtain y where "round_double (real m) = Fin y" "y \<le> real m"
    using round_double_upper [of "real m" m] assms by auto
  moreover have "round_double (real m) = PInf \<or> (\<exists>y. round_double (real m) = Fin y \<and> real m \<le> y)"
    using round_double_lower [of m "real m"] assms by simp
  ultimately show ?thesis by auto
qed

lemma round_double_at:
  assumes "- 1022 \<le> e" "2 powr of_int e \<le> \<bar>x\<bar>" "\<bar>x\<bar> < 2 powr of_int (e + 1)"
    and "u = 2 powr of_int (e - 52)"
  shows "round_double x =
           (if overflow_threshold \<le> \<bar>of_int (round_even (x / u)) * u\<bar>
            then (if 0 < x then PInf else NInf) else Fin (of_int (round_even (x / u)) * u))"
proof -
  have "x \<noteq> 0" using assms(2) by (smt (verit) powr_gt_zero)
  moreover have "\<lfloor>log 2 \<bar>x\<bar>\<rfloor> = e" using assms(2,3) by (rule floor_log2_eq)
  ultimately show ?thesis using assms(1,4) by (simp add: round_double_def Let_def max_def)
qed

text \<open>The number of tokens to keep.\<close>

lemma tokens_to_keep_int: "tokens_to_keep (PyInt i) n = Inr (i * int n)"
  by (simp add: tokens_to_keep_def)

lemma tokens_to_keep_float:
  assumes "n \<le> 2 ^ 53"
  shows "tokens_to_keep (PyFloat (Fin r)) n =
           (case round_double (r * real n) of
              Fin y \<Rightarrow> Inr \<lceil>y\<rceil> | NaN \<Rightarrow> Inl Value_error | _ \<Rightarrow> Inl Overflow_error)"
  by (simp add: tokens_to_keep_def float_mul_def round_double_nat [OF assms])

lemma ratio_value_cases:
  assumes "ratio_value q = Some r"
  obtains i where "q = PyInt i" "r = of_int i" | "q = PyFloat (Fin r)"
  using assms by (auto simp: ratio_value_def split: pynum.splits pyfloat.splits)

lemma tokens_to_keep_unit:
  assumes "ratio_value q = Some r" "0 \<le> r" "r \<le> 1" "n \<le> 2 ^ 53"
  shows "\<exists>k. tokens_to_keep q n = Inr k \<and> 0 \<le> k \<and> k \<le> int n"
  using assms(1)
proof (cases rule: ratio_value_cases)
  case (1 i)
  then have "i = 0 \<or> i = 1" using assms(2,3) by auto
  then show ?thesis using 1 by (auto simp: tokens_to_keep_int)
next
  case 2
  have "0 \<le> r * real n" using assms(2) by simp
  moreover have "r * real n \<le> 1 * real n" using assms(3) by (intro mult_right_mono) simp_all
  ultimately obtain y where y: "round_double (r * real n) = Fin y" "0 \<le> y" "y \<le> real n"
    using round_double_upper [of "r * real n" n] assms(4) by auto
  have "0 \<le> \<lceil>y\<rceil>" using y(2) by linarith
  moreover have "\<lceil>y\<rceil> \<le> int n" using y(3) by (simp add: ceiling_le_iff)
  ultimately show ?thesis using 2 y(1) by (simp add: tokens_to_keep_float [OF assms(4)])
qed

lemma round_double_nonneg:
  assumes "0 \<le> x" and "round_double x = Fin y"
  shows "0 \<le> y"
  using round_double_lower [of 0 x] assms by auto

lemma tokens_to_keep_nonneg:
  assumes "ratio_value q = Some r" "0 \<le> r" "tokens_to_keep q n = Inr k"
  shows "0 \<le> k"
  using assms(1)
proof (cases rule: ratio_value_cases)
  case (1 i)
  then show ?thesis using assms(2,3) by (auto simp: tokens_to_keep_int)
next
  case 2
  from assms(3) obtain m y where m: "round_double (real n) = Fin m"
    and y: "round_double (r * m) = Fin y" and k: "k = \<lceil>y\<rceil>"
    by (auto simp: tokens_to_keep_def 2 float_mul_def split: pyfloat.splits)
  have "0 \<le> m" using round_double_nonneg [OF _ m] by simp
  then have "0 \<le> r * m" using assms(2) by simp
  then have "0 \<le> y" using y by (rule round_double_nonneg)
  then show ?thesis unfolding k by linarith
qed

lemma tokens_to_keep_above:
  assumes "ratio_value q = Some r" "1 \<le> r" "n \<le> 2 ^ 53" "tokens_to_keep q n = Inr k"
  shows "int n \<le> k"
  using assms(1)
proof (cases rule: ratio_value_cases)
  case (1 i)
  then have "1 \<le> i" using assms(2) by simp
  then have "1 * int n \<le> i * int n" by (intro mult_right_mono) simp_all
  then show ?thesis using 1 assms(4) by (simp add: tokens_to_keep_int)
next
  case 2
  from assms(4) obtain y where y: "round_double (r * real n) = Fin y" and k: "k = \<lceil>y\<rceil>"
    by (auto simp: 2 tokens_to_keep_float [OF assms(3)] split: pyfloat.splits)
  have "1 * real n \<le> r * real n" using assms(2) by (intro mult_right_mono) simp_all
  then have "real n \<le> y" using round_double_lower [of n "r * real n"] assms(3) y by auto
  then show ?thesis unfolding k by linarith
qed

lemma tokens_to_keep_one:
  assumes "ratio_value q = Some 1" "n \<le> 2 ^ 53"
  shows "tokens_to_keep q n = Inr (int n)"
proof -
  obtain k where k: "tokens_to_keep q n = Inr k" "k \<le> int n"
    using tokens_to_keep_unit [OF assms(1) _ _ assms(2)] by auto
  then show ?thesis using tokens_to_keep_above [OF assms(1) _ assms(2) k(1)] by simp
qed

lemma float_0_6_value: "ratio_value float_0_6 = Some (5404319552844595 / 9007199254740992)"
  by (simp add: ratio_value_def float_0_6_def)

lemma tokens_to_keep_0_6: "tokens_to_keep float_0_6 3 = Inr 2"
proof -
  have "round_double (5404319552844595 / 9007199254740992 * real 3) =
        Fin (8106479329266892 / 4503599627370496)"
    by (subst round_double_at [where e = 0 and u = "1 / 2 ^ 52"])
      (simp_all add: round_even_def powr_neg_numeral overflow_threshold_def)
  then show ?thesis by (simp add: float_0_6_def tokens_to_keep_float)
qed

lemma tokens_to_keep_0_6_13: "tokens_to_keep float_0_6 13 = Inr 8"
proof -
  have "round_double (5404319552844595 / 9007199254740992 * real 13) =
        Fin (8782019273372467 / 1125899906842624)"
    by (subst round_double_at [where e = 2 and u = "1 / 2 ^ 50"])
      (simp_all add: round_even_def powr_neg_numeral overflow_threshold_def)
  then show ?thesis by (simp add: float_0_6_def tokens_to_keep_float)
qed

lemma tokens_to_keep_0_6_2: "tokens_to_keep float_0_6 2 = Inr 2"
proof -
  have "round_double (5404319552844595 / 9007199254740992 * real 2) =
        Fin (5404319552844595 / 4503599627370496)"
    by (subst round_double_at [where e = 0 and u = "1 / 2 ^ 52"])
      (simp_all add: round_even_def powr_neg_numeral overflow_threshold_def)
  then show ?thesis by (simp add: float_0_6_def tokens_to_keep_float)
qed

lemma tokens_to_keep_0_14: "tokens_to_keep float_0_14 100 = Inr 15"
proof -
  have "round_double (1261007895663739 / 9007199254740992 * real 100) =
        Fin (7881299347898369 / 562949953421312)"
    by (subst round_double_at [where e = 3 and u = "1 / 2 ^ 49"])
      (simp_all add: round_even_def powr_neg_numeral overflow_threshold_def)
  then show ?thesis by (simp add: float_0_14_def tokens_to_keep_float)
qed

lemma tokens_to_keep_0_1: "tokens_to_keep float_0_1 10 = Inr 1"
proof -
  have "round_double (3602879701896397 / 36028797018963968 * real 10) = Fin 1"
    by (subst round_double_at [where e = 0 and u = "1 / 2 ^ 52"])
      (simp_all add: round_even_def powr_neg_numeral overflow_threshold_def)
  then show ?thesis by (simp add: float_0_1_def tokens_to_keep_float)
qed

lemma tokens_to_keep_overflow: "tokens_to_keep (PyFloat (Fin (2 ^ 1023))) 2 = Inl Overflow_error"
proof -
  have "round_double (2 ^ 1023 * real 2) = PInf"
    by (subst round_double_at [where e = 1024 and u = "2 ^ 972"])
      (simp_all add: round_even_def overflow_threshold_def)
  then show ?thesis by (simp add: tokens_to_keep_float)
qed

lemma tokens_to_keep_negative: "tokens_to_keep (PyFloat (Fin (- 1 / 2))) 4 = Inr (- 2)"
proof -
  have "round_double (- 1 / 2 * real 4) = Fin (- 2)"
    by (subst round_double_at [where e = 1 and u = "1 / 2 ^ 51"])
      (simp_all add: round_even_def powr_neg_numeral overflow_threshold_def)
  then show ?thesis by (simp add: tokens_to_keep_float)
qed

subsection \<open>Sorting routines\<close>

lemma argsort_length: "argsort_spec srt \<Longrightarrow> length (srt xs) = length xs"
proof -
  assume "argsort_spec srt"
  then have "mset (srt xs) = mset [0..<length xs]" by (simp add: argsort_spec_def)
  then have "size (mset (srt xs)) = size (mset [0..<length xs])" by simp
  then show ?thesis by simp
qed

lemma argsort_set: "argsort_spec srt \<Longrightarrow> set (srt xs) = {0..<length xs}"
proof -
  assume "argsort_spec srt"
  then have "mset (srt xs) = mset [0..<length xs]" by (simp add: argsort_spec_def)
  then have "set_mset (mset (srt xs)) = set_mset (mset [0..<length xs])" by simp
  then show ?thesis by simp
qed

lemma argsort_sorted: "argsort_spec srt \<Longrightarrow> sorted (map (\<lambda>i. xs ! i) (srt xs))"
  by (simp add: argsort_spec_def)

lemma argsort_distinct: "argsort_spec srt \<Longrightarrow> distinct (srt xs)"
proof -
  assume "argsort_spec srt"
  then have "mset (srt xs) = mset [0..<length xs]" by (simp add: argsort_spec_def)
  then show ?thesis using distinct_upt mset_eq_imp_distinct_iff by blast
qed

lemma stable_argsort_spec: "argsort_spec stable_argsort"
  by (simp add: argsort_spec_def stable_argsort_def)

subsection \<open>The tensor operations\<close>

lemma wf4_batch: "wf4 t \<Longrightarrow> b \<in> set (elems t) \<Longrightarrow> length b = shape t ! 1"
  by (auto simp: wf4_def list_all_iff)

lemma wf4_head: "wf4 t \<Longrightarrow> b \<in> set (elems t) \<Longrightarrow> h \<in> set b \<Longrightarrow> length h = shape t ! 2"
  by (auto simp: wf4_def list_all_iff)

lemma wf4_row:
  "wf4 t \<Longrightarrow> b \<in> set (elems t) \<Longrightarrow> h \<in> set b \<Longrightarrow> r \<in> set h \<Longrightarrow> length r = shape t ! 3"
  by (auto simp: wf4_def list_all_iff)

lemma wf4_length: "wf4 t \<Longrightarrow> length (elems t) = shape t ! 0"
  by (simp add: wf4_def)

lemma length4_conv: "length xs = 4 \<longleftrightarrow> (\<exists>a b c d. xs = [a, b, c, d])"
  by (auto simp: length_Suc_conv eval_nat_numeral)

lemma expand_sizes_last:
  "expand_sizes [-1, -1, -1, int d] [a, b, c, Suc 0] = Inr [a, b, c, d]"
  by (auto simp: expand_sizes_def)

lemma expand_sizes_rank3:
  "expand_sizes [-1, -1, -1, int d] [a, b, Suc 0] = Inl Expand_leading_dim"
  by (auto simp: expand_sizes_def split: sum.splits)

lemma broadcast_row_single: "broadcast_row d [x] = replicate d x"
  by (cases "d = 1") (auto simp: broadcast_row_def)

text \<open>A single cached token: the call fails.\<close>

lemma sorted_indices_expanded_single:
  assumes "wf4 keys" and "shape keys ! 2 = 1"
  shows "sorted_indices_expanded srt (norm_last nrm keys) d = Inl Expand_leading_dim"
proof -
  obtain a b c e where s: "shape keys = [a, b, c, e]"
    using assms(1) by (auto simp: wf4_def length4_conv)
  with assms(2) have c: "c = 1" by simp
  show ?thesis
    by (simp add: sorted_indices_expanded_def norm_last_def squeeze_last_def s c
        expand3_def unsqueeze2_def argsort2_def expand_sizes_rank3)
qed

lemma sorted_indices_expanded_many:
  assumes "wf4 keys" and "shape keys ! 2 \<noteq> 1"
  shows "sorted_indices_expanded srt (norm_last nrm keys) (shape keys ! 3) =
         Inr \<lparr>shape = shape keys,
              elems = map (map (\<lambda>s. map (replicate (shape keys ! 3)) (srt (map nrm s))))
                        (elems keys)\<rparr>"
proof -
  obtain a b c e where s: "shape keys = [a, b, c, e]"
    using assms(1) by (auto simp: wf4_def length4_conv)
  with assms(2) have c: "c \<noteq> Suc 0" by simp
  show ?thesis
    by (simp add: sorted_indices_expanded_def norm_last_def squeeze_last_def s c
        expand4_def unsqueeze3_def argsort3_def expand_sizes_last broadcast_row_single comp_def)
qed

lemma gather_row:
  assumes "length (s ! j) = d"
  shows "map2 (\<lambda>l i. s ! i ! l) [0..<length (replicate d j)] (replicate d j) = s ! j"
proof -
  have "map2 (\<lambda>l i. s ! i ! l) [0..<d] (replicate d j) = map (\<lambda>l. s ! j ! l) [0..<d]"
    by (rule nth_equalityI) auto
  also have "\<dots> = map (\<lambda>l. s ! j ! l) [0..<length (s ! j)]" using assms by simp
  also have "\<dots> = s ! j" by (rule map_nth)
  finally show ?thesis by simp
qed

lemma map2_map_right: "map2 f xs (map g ys) = map2 (\<lambda>x y. f x (g y)) xs ys"
  by (simp add: zip_map2 comp_def case_prod_unfold)

lemma map2_cong_set:
  assumes "\<And>x y. x \<in> set xs \<Longrightarrow> y \<in> set ys \<Longrightarrow> f x y = g x y"
  shows "map2 f xs ys = map2 g xs ys"
  using assms by (auto dest: set_zip_leftD set_zip_rightD)

lemma map2_const_left: "length xs = length ys \<Longrightarrow> map2 (\<lambda>x y. f y) xs ys = map f ys"
  by (induction xs ys rule: list_induct2) simp_all

text \<open>The index tensor built from the keys, as \<open>gather\<close> receives it.\<close>

lemma gather2_sorted:
  assumes srt: "argsort_spec srt" and k: "wf4 keys" and v: "wf4 vals"
    and sh: "shape vals = shape keys"
  shows "gather2 vals
           \<lparr>shape = shape keys,
            elems = map (map (\<lambda>s. map (replicate (shape keys ! 3)) (srt (map nrm s))))
                      (elems keys)\<rparr> =
         Inr \<lparr>shape = shape keys,
              elems = map2 (\<lambda>vb kb. map2 (\<lambda>vs ks. map (\<lambda>i. vs ! i) (srt (map nrm ks))) vb kb)
                        (elems vals) (elems keys)\<rparr>"
proof -
  let ?D = "shape keys ! 3"
  let ?idx = "map (map (\<lambda>s. map (replicate ?D) (srt (map nrm s)))) (elems keys)"
  have bound: "i < shape vals ! 2"
    if "kb \<in> set (elems keys)" "ks \<in> set kb" "i \<in> set (srt (map nrm ks))" for kb ks i
  proof -
    have "i < length ks" using that(3) argsort_set [OF srt, of "map nrm ks"] by simp
    then show ?thesis using wf4_head [OF k that(1,2)] sh by simp
  qed
  have inb: "list_all (list_all (list_all (list_all (\<lambda>i. i < shape vals ! 2)))) ?idx"
    using bound by (auto simp: list_all_iff)
  have row: "map (\<lambda>r. map2 (\<lambda>d i. vs ! i ! d) [0..<length r] r)
               (map (replicate ?D) (srt (map nrm ks))) =
             map (\<lambda>i. vs ! i) (srt (map nrm ks))"
    if "vb \<in> set (elems vals)" "vs \<in> set vb" "kb \<in> set (elems keys)" "ks \<in> set kb"
    for vb vs kb ks
  proof -
    have "map2 (\<lambda>d i. vs ! i ! d) [0..<length (replicate ?D j)] (replicate ?D j) = vs ! j"
      if j: "j \<in> set (srt (map nrm ks))" for j
    proof -
      have "j < length vs"
        using bound [OF \<open>kb \<in> set (elems keys)\<close> \<open>ks \<in> set kb\<close> j]
          wf4_head [OF v \<open>vb \<in> set (elems vals)\<close> \<open>vs \<in> set vb\<close>] by simp
      then have "vs ! j \<in> set vs" by simp
      then have "length (vs ! j) = ?D"
        using wf4_row [OF v \<open>vb \<in> set (elems vals)\<close> \<open>vs \<in> set vb\<close>] sh by simp
      then show ?thesis by (rule gather_row)
    qed
    then show ?thesis by (simp add: comp_def)
  qed
  have full: "map2 (\<lambda>inp_b idx_b.
            map2 (\<lambda>inp_h idx_h.
              map (\<lambda>idx_r. map2 (\<lambda>d i. inp_h ! i ! d) [0..<length idx_r] idx_r) idx_h)
            inp_b idx_b)
          (elems vals) ?idx =
        map2 (\<lambda>vb kb. map2 (\<lambda>vs ks. map (\<lambda>i. vs ! i) (srt (map nrm ks))) vb kb)
          (elems vals) (elems keys)"
    unfolding map2_map_right
    by (intro map2_cong_set) (use row in blast)
  show ?thesis
  proof (cases "0 \<in> set (shape keys)")
    case False
    then show ?thesis using inb full by (simp add: gather2_def sh)
  next
    case True
    obtain a b c d where s: "shape keys = [a, b, c, d]"
      using k by (auto simp: wf4_def length4_conv)
    have empty_row: "vs ! i = []"
      if "vb \<in> set (elems vals)" "vs \<in> set vb" "kb \<in> set (elems keys)" "ks \<in> set kb"
        "i \<in> set (srt (map nrm ks))" for vb vs kb ks i
    proof -
      have i: "i < shape vals ! 2" using that(3,4,5) by (rule bound)
      then have "c \<noteq> 0" using sh s by simp
      moreover have "b \<noteq> 0" using wf4_batch [OF k that(3)] that(4) s by auto
      moreover have "a \<noteq> 0" using wf4_length [OF k] that(3) s by auto
      ultimately have d: "d = 0" using True s by simp
      have "vs ! i \<in> set vs" using i wf4_head [OF v that(1,2)] by simp
      then show ?thesis using wf4_row [OF v that(1,2)] sh s d by simp
    qed
    have len0: "length (elems vals) = length (elems keys)"
      using wf4_length [OF k] wf4_length [OF v] sh by simp
    have len1: "length vb = length kb" if "vb \<in> set (elems vals)" "kb \<in> set (elems keys)" for vb kb
      using wf4_batch [OF k that(2)] wf4_batch [OF v that(1)] sh by simp
    have "map2 (\<lambda>vb kb. map2 (\<lambda>vs ks. map (\<lambda>i. vs ! i) (srt (map nrm ks))) vb kb)
            (elems vals) (elems keys) =
          map2 (\<lambda>vb kb. map (\<lambda>ks. map (\<lambda>i. []) (srt (map nrm ks))) kb) (elems vals) (elems keys)"
    proof (rule map2_cong_set)
      fix vb kb
      assume vb: "vb \<in> set (elems vals)" and kb: "kb \<in> set (elems keys)"
      have "map2 (\<lambda>vs ks. map (\<lambda>i. vs ! i) (srt (map nrm ks))) vb kb =
            map2 (\<lambda>vs ks. map (\<lambda>i. []) (srt (map nrm ks))) vb kb"
        by (rule map2_cong_set) (simp add: empty_row [OF vb _ kb])
      also have "\<dots> = map (\<lambda>ks. map (\<lambda>i. []) (srt (map nrm ks))) kb"
        by (rule map2_const_left) (rule len1 [OF vb kb])
      finally show "map2 (\<lambda>vs ks. map (\<lambda>i. vs ! i) (srt (map nrm ks))) vb kb =
            map (\<lambda>ks. map (\<lambda>i. []) (srt (map nrm ks))) kb" .
    qed
    also have "\<dots> = map (map (\<lambda>ks. map (\<lambda>i. []) (srt (map nrm ks)))) (elems keys)"
      by (rule map2_const_left) (rule len0)
    also have "\<dots> = map (map (map (\<lambda>r. []))) ?idx"
      by (simp add: comp_def)
    finally show ?thesis using True by (simp add: gather2_def)
  qed
qed

lemma gather2_sorted_keys:
  assumes "argsort_spec srt" and "wf4 keys"
  shows "gather2 keys
           \<lparr>shape = shape keys,
            elems = map (map (\<lambda>s. map (replicate (shape keys ! 3)) (srt (map nrm s))))
                      (elems keys)\<rparr> =
         Inr \<lparr>shape = shape keys,
              elems = map (map (\<lambda>ks. map (\<lambda>i. ks ! i) (srt (map nrm ks)))) (elems keys)\<rparr>"
proof -
  have "map2 (\<lambda>vb kb. map2 (\<lambda>vs ks. map (\<lambda>i. vs ! i) (srt (map nrm ks))) vb kb)
          (elems keys) (elems keys) =
        map (map (\<lambda>ks. map (\<lambda>i. ks ! i) (srt (map nrm ks)))) (elems keys)"
    by (simp add: zip_same_conv_map comp_def)
  then show ?thesis
    using gather2_sorted [OF assms(1) assms(2) assms(2)] by simp
qed

subsection \<open>One layer\<close>

lemma wf4_last: "wf4 t \<Longrightarrow> last (shape t) = shape t ! 3"
  by (auto simp: wf4_def length4_conv)

lemma compress_layer_short:
  "int (shape (fst kv) ! 2) < prune_after \<Longrightarrow>
   compress_layer srt nrm keep_ratio prune_after skip_layers layer kv = Inr kv"
  by (simp add: compress_layer_def size_dim_def)

lemma compress_layer_single:
  assumes "wf4 (fst kv)" and "shape (fst kv) ! 2 = 1" and "\<not> int (shape (fst kv) ! 2) < prune_after"
  shows "compress_layer srt nrm keep_ratio prune_after skip_layers layer kv =
           (case tokens_to_keep keep_ratio 1 of Inl e \<Rightarrow> Inl e | Inr k \<Rightarrow> Inl Expand_leading_dim)"
  using assms(2,3) sorted_indices_expanded_single [OF assms(1,2), of srt nrm]
  by (cases "tokens_to_keep keep_ratio (Suc 0)")
    (simp_all add: compress_layer_def size_dim_def Let_def)

lemma compress_layer_single_fails:
  assumes "wf4 (fst kv)" and "shape (fst kv) ! 2 = 1" and "\<not> int (shape (fst kv) ! 2) < prune_after"
  shows "\<exists>e. compress_layer srt nrm keep_ratio prune_after skip_layers layer kv = Inl e"
  by (simp add: compress_layer_single [OF assms] split: sum.splits)

lemma compress_layer_tokens:
  assumes "compress_layer srt nrm keep_ratio prune_after skip_layers layer kv = Inr kv'"
    and "\<not> int (shape (fst kv) ! 2) < prune_after"
  shows "\<exists>k. tokens_to_keep keep_ratio (shape (fst kv) ! 2) = Inr k"
  using assms by (auto simp: compress_layer_def size_dim_def Let_def split: sum.splits)

lemma compress_layer_sorts:
  assumes srt: "argsort_spec srt" and ws: "well_shaped (keys, vals)"
    and long: "\<not> int (shape keys ! 2) < prune_after" and many: "shape keys ! 2 \<noteq> 1"
    and tk: "tokens_to_keep keep_ratio (shape keys ! 2) = Inr k"
  shows "compress_layer srt nrm keep_ratio prune_after skip_layers layer (keys, vals) =
         Inr (if layer \<in> set skip_layers then (keys, vals)
              else (slice_seq k
                      \<lparr>shape = shape keys,
                       elems = map (map (\<lambda>ks. map (\<lambda>i. ks ! i) (srt (map nrm ks))))
                                 (elems keys)\<rparr>,
                    slice_seq k
                      \<lparr>shape = shape keys,
                       elems = map2 (\<lambda>vb kb. map2 (\<lambda>vs ks. map (\<lambda>i. vs ! i) (srt (map nrm ks))) vb kb)
                                 (elems vals) (elems keys)\<rparr>))"
proof -
  have k: "wf4 keys" and v: "wf4 vals" and sh: "shape vals = shape keys"
    using ws by (simp_all add: well_shaped_def)
  show ?thesis
    using long
    by (simp add: compress_layer_def size_dim_def Let_def wf4_last [OF k] tk
        sorted_indices_expanded_many [OF k many] gather2_sorted_keys [OF srt k]
        gather2_sorted [OF srt k v sh])
qed

subsection \<open>The loop over the layers\<close>

lemma compress_from_Inr_iff:
  "compress_from srt nrm keep_ratio prune_after skip_layers layer kvs = Inr out \<longleftrightarrow>
   length out = length kvs \<and>
   (\<forall>i<length kvs.
      compress_layer srt nrm keep_ratio prune_after skip_layers (layer + i) (kvs ! i) = Inr (out ! i))"
proof (induction kvs arbitrary: layer out)
  case Nil
  then show ?case by auto
next
  case (Cons kv kvs)
  show ?case
  proof (cases out)
    case Nil
    then show ?thesis by (auto split: sum.splits)
  next
    case (Cons o1 os)
    have "(\<forall>i<Suc (length kvs).
             compress_layer srt nrm keep_ratio prune_after skip_layers (layer + i) ((kv # kvs) ! i) =
             Inr ((o1 # os) ! i)) \<longleftrightarrow>
          compress_layer srt nrm keep_ratio prune_after skip_layers layer kv = Inr o1 \<and>
          (\<forall>i<length kvs.
             compress_layer srt nrm keep_ratio prune_after skip_layers (Suc layer + i) (kvs ! i) =
             Inr (os ! i))"
      by (simp add: All_less_Suc2)
    then show ?thesis
      using Cons.IH [of "Suc layer" os] Cons
      by (auto split: sum.splits)
  qed
qed

lemma l2_compress_Inr_iff:
  "l2_compress srt nrm pkv keep_ratio prune_after skip_layers = Inr out \<longleftrightarrow>
   length out = length pkv \<and>
   (\<forall>i<length pkv.
      compress_layer srt nrm keep_ratio prune_after skip_layers i (pkv ! i) = Inr (out ! i))"
  by (simp add: l2_compress_def compress_from_Inr_iff)

subsection \<open>The slices of a compacted layer\<close>

lemma slice_of_slice_seq:
  "b < length (elems t) \<Longrightarrow> h < length (elems t ! b) \<Longrightarrow>
   slice_of (slice_seq k t) b h = take (slice_stop (shape t ! 2) k) (slice_of t b h)"
  by (simp add: slice_of_def slice_seq_def)

lemma slice_of_map:
  "b < length (elems t) \<Longrightarrow> h < length (elems t ! b) \<Longrightarrow>
   slice_of \<lparr>shape = s, elems = map (map f) (elems t)\<rparr> b h = f (slice_of t b h)"
  by (simp add: slice_of_def)

lemma slice_of_map2:
  "b < length (elems t) \<Longrightarrow> b < length (elems u) \<Longrightarrow>
   h < length (elems t ! b) \<Longrightarrow> h < length (elems u ! b) \<Longrightarrow>
   slice_of \<lparr>shape = s, elems = map2 (\<lambda>x y. map2 f x y) (elems t) (elems u)\<rparr> b h =
   f (slice_of t b h) (slice_of u b h)"
  by (simp add: slice_of_def)

lemma wf4_length_batch: "wf4 t \<Longrightarrow> b < shape t ! 0 \<Longrightarrow> length (elems t ! b) = shape t ! 1"
  using wf4_batch [of t "elems t ! b"] by (simp add: wf4_length)

lemma wf4_length_slice:
  "wf4 t \<Longrightarrow> b < shape t ! 0 \<Longrightarrow> h < shape t ! 1 \<Longrightarrow> length (slice_of t b h) = shape t ! 2"
  using wf4_head [of t "elems t ! b" "elems t ! b ! h"]
  by (simp add: wf4_length wf4_length_batch slice_of_def)

text \<open>
  What a layer that reaches the slice looks like, one (batch, head) slice at a time.
\<close>

lemma compacted_slices:
  assumes srt: "argsort_spec srt" and ws: "well_shaped (keys, vals)"
    and long: "\<not> int (shape keys ! 2) < prune_after" and many: "shape keys ! 2 \<noteq> 1"
    and tk: "tokens_to_keep keep_ratio (shape keys ! 2) = Inr k"
    and skip: "layer \<notin> set skip_layers"
    and res: "compress_layer srt nrm keep_ratio prune_after skip_layers layer (keys, vals) = Inr (ks', vs')"
    and b: "b < shape keys ! 0" and h: "h < shape keys ! 1"
  shows "slice_of ks' b h =
           map (\<lambda>i. slice_of keys b h ! i)
             (take (slice_stop (shape keys ! 2) k)
                (srt (map nrm (slice_of keys b h))))"
    and "slice_of vs' b h =
           map (\<lambda>i. slice_of vals b h ! i)
             (take (slice_stop (shape keys ! 2) k)
                (srt (map nrm (slice_of keys b h))))"
proof -
  have k: "wf4 keys" and v: "wf4 vals" and sh: "shape vals = shape keys"
    using ws by (simp_all add: well_shaped_def)
  note lens = wf4_length [OF k] wf4_length [OF v] wf4_length_batch [OF k b]
    wf4_length_batch [OF v, of b] sh b h
  from res have ks': "ks' = slice_seq k
                      \<lparr>shape = shape keys,
                       elems = map (map (\<lambda>ks. map (\<lambda>i. ks ! i) (srt (map nrm ks))))
                                 (elems keys)\<rparr>"
    and vs': "vs' = slice_seq k
                      \<lparr>shape = shape keys,
                       elems = map2 (\<lambda>vb kb. map2 (\<lambda>vs ks. map (\<lambda>i. vs ! i) (srt (map nrm ks))) vb kb)
                                 (elems vals) (elems keys)\<rparr>"
    using skip by (simp_all add: compress_layer_sorts [OF srt ws long many tk])
  show "slice_of ks' b h =
           map (\<lambda>i. slice_of keys b h ! i)
             (take (slice_stop (shape keys ! 2) k)
                (srt (map nrm (slice_of keys b h))))"
    unfolding ks' using lens
    by (subst slice_of_slice_seq) (simp_all add: slice_of_map take_map)
  show "slice_of vs' b h =
           map (\<lambda>i. slice_of vals b h ! i)
             (take (slice_stop (shape keys ! 2) k)
                (srt (map nrm (slice_of keys b h))))"
    unfolding vs' using lens
    by (subst slice_of_slice_seq) (simp_all add: slice_of_map2 take_map)
qed

lemma compacted_shapes:
  assumes srt: "argsort_spec srt" and ws: "well_shaped (keys, vals)"
    and long: "\<not> int (shape keys ! 2) < prune_after" and many: "shape keys ! 2 \<noteq> 1"
    and tk: "tokens_to_keep keep_ratio (shape keys ! 2) = Inr k"
    and skip: "layer \<notin> set skip_layers"
    and res: "compress_layer srt nrm keep_ratio prune_after skip_layers layer (keys, vals) = Inr (ks', vs')"
  shows "shape ks' =
           (shape keys)[2 := slice_stop (shape keys ! 2) k]"
    and "shape vs' = shape ks'"
  using res skip by (auto simp: compress_layer_sorts [OF srt ws long many tk] slice_seq_def)

lemmas tokens_to_keep_0_6_Suc = tokens_to_keep_0_6 [unfolded numeral_3_eq_3]

lemmas eval_defs = l2_compress_def compress_layer_def one_slice_def size_dim_def
  norm_last_def sorted_indices_expanded_def squeeze_last_def argsort3_def unsqueeze3_def expand4_def
  expand_sizes_def broadcast_row_def gather2_def slice_seq_def slice_stop_def stable_argsort_def
  l2_norm_def argsort2_def unsqueeze2_def expand3_def upt_rec well_shaped_def wf4_def slice_of_def
  tokens_to_keep_int tokens_to_keep_0_6_Suc

lemma compacted_slice_length:
  assumes srt: "argsort_spec srt" and ws: "well_shaped (keys, vals)"
    and long: "\<not> int (shape keys ! 2) < prune_after" and many: "shape keys ! 2 \<noteq> 1"
    and tk: "tokens_to_keep keep_ratio (shape keys ! 2) = Inr k"
    and skip: "layer \<notin> set skip_layers"
    and res: "compress_layer srt nrm keep_ratio prune_after skip_layers layer (keys, vals) = Inr (ks', vs')"
    and b: "b < shape keys ! 0" and h: "h < shape keys ! 1"
  shows "length (slice_of ks' b h) =
           slice_stop (shape keys ! 2) k"
    and "length (slice_of vs' b h) =
           slice_stop (shape keys ! 2) k"
proof -
  have k: "wf4 keys" using ws by (simp add: well_shaped_def)
  have "length (srt (map nrm (slice_of keys b h))) = shape keys ! 2"
    by (simp add: argsort_length [OF srt] wf4_length_slice [OF k b h])
  moreover have "slice_stop n x \<le> n" for n x
    by (auto simp: slice_stop_def)
  ultimately show "length (slice_of ks' b h) =
           slice_stop (shape keys ! 2) k"
    and "length (slice_of vs' b h) =
           slice_stop (shape keys ! 2) k"
    by (simp_all add: compacted_slices [OF srt ws long many tk skip res b h] min_absorb2)
qed

text \<open>A layer that the call hands to the sort has some number of tokens other than one.\<close>

lemma returned_layer_many:
  assumes "wf4 (fst kv)" and "\<not> int (shape (fst kv) ! 2) < prune_after"
    and "compress_layer srt nrm keep_ratio prune_after skip_layers layer kv = Inr kv'"
  shows "shape (fst kv) ! 2 \<noteq> 1"
  using compress_layer_single_fails [OF assms(1) _ assms(2), of srt nrm keep_ratio skip_layers layer]
    assms(3) by auto

text \<open>The facts about layer \<open>i\<close> of a call that returned.\<close>

lemma returned_layer:
  assumes "list_all well_shaped pkv"
    and "l2_compress srt nrm pkv keep_ratio prune_after skip_layers = Inr out"
    and "i < length pkv"
  shows "well_shaped (fst (pkv ! i), snd (pkv ! i))"
    and "compress_layer srt nrm keep_ratio prune_after skip_layers i (fst (pkv ! i), snd (pkv ! i)) =
         Inr (fst (out ! i), snd (out ! i))"
    and "\<not> int (size_dim (fst (pkv ! i)) 2) < prune_after \<Longrightarrow> shape (fst (pkv ! i)) ! 2 \<noteq> 1"
    and "\<not> int (size_dim (fst (pkv ! i)) 2) < prune_after \<Longrightarrow>
         \<not> int (shape (fst (pkv ! i)) ! 2) < prune_after"
    and "\<not> int (size_dim (fst (pkv ! i)) 2) < prune_after \<Longrightarrow>
         \<exists>k. tokens_to_keep keep_ratio (shape (fst (pkv ! i)) ! 2) = Inr k"
proof -
  show ws: "well_shaped (fst (pkv ! i), snd (pkv ! i))"
    using assms(1,3) by (simp add: list_all_length)
  show res: "compress_layer srt nrm keep_ratio prune_after skip_layers i (fst (pkv ! i), snd (pkv ! i)) =
         Inr (fst (out ! i), snd (out ! i))"
    using assms(2,3) by (simp add: l2_compress_Inr_iff)
  show "shape (fst (pkv ! i)) ! 2 \<noteq> 1" if "\<not> int (size_dim (fst (pkv ! i)) 2) < prune_after"
    using returned_layer_many [OF _ _ res] ws that by (simp add: well_shaped_def size_dim_def)
  show "\<not> int (shape (fst (pkv ! i)) ! 2) < prune_after"
    if "\<not> int (size_dim (fst (pkv ! i)) 2) < prune_after"
    using that by (simp add: size_dim_def)
  show "\<exists>k. tokens_to_keep keep_ratio (shape (fst (pkv ! i)) ! 2) = Inr k"
    if "\<not> int (size_dim (fst (pkv ! i)) 2) < prune_after"
    using compress_layer_tokens [OF res] that by (simp add: size_dim_def)
qed

lemma slice_stop_in_range:
  "0 \<le> k \<Longrightarrow> k \<le> int n \<Longrightarrow> slice_stop n k = nat k"
  by (auto simp: slice_stop_def)

lemma compress_layer_unchanged:
  assumes "compress_layer srt nrm keep_ratio prune_after skip_layers layer kv = Inr kv'"
    and "layer \<in> set skip_layers \<or> int (size_dim (fst kv) 2) < prune_after"
  shows "kv' = kv"
  using assms by (auto simp: compress_layer_def Let_def split: sum.splits if_splits)

lemma returned_layer_unchanged:
  assumes "l2_compress srt nrm pkv keep_ratio prune_after skip_layers = Inr out"
    and "i < length pkv"
    and "i \<in> set skip_layers \<or> int (size_dim (fst (pkv ! i)) 2) < prune_after"
  shows "out ! i = pkv ! i"
  using assms compress_layer_unchanged [of srt nrm keep_ratio prune_after skip_layers i "pkv ! i" "out ! i"]
  by (simp add: l2_compress_Inr_iff)

lemma slice_stop_le: "slice_stop n k \<le> n"
  by (auto simp: slice_stop_def)

lemma wf4_slice_seq:
  assumes "wf4 t"
  shows "wf4 (slice_seq k t)"
proof -
  obtain a b c d where s: "shape t = [a, b, c, d]"
    using assms by (auto simp: wf4_def length4_conv)
  show ?thesis
    using assms slice_stop_le [of c k]
    by (auto simp: wf4_def slice_seq_def s list_all_iff min_absorb2 dest: in_set_takeD)
qed

lemma wf4_sorted_keys:
  assumes srt: "argsort_spec srt" and k: "wf4 keys"
  shows "wf4 \<lparr>shape = shape keys,
              elems = map (map (\<lambda>ks. map (\<lambda>i. ks ! i) (srt (map nrm ks)))) (elems keys)\<rparr>"
proof -
  have "length (ks ! i) = shape keys ! 3"
    if "kb \<in> set (elems keys)" "ks \<in> set kb" "i \<in> set (srt (map nrm ks))" for kb ks i
  proof -
    have "i < length ks" using that(3) argsort_set [OF srt, of "map nrm ks"] by simp
    then have "ks ! i \<in> set ks" by simp
    then show ?thesis by (rule wf4_row [OF k that(1,2)])
  qed
  then show ?thesis
    using k by (auto simp: wf4_def list_all_iff argsort_length [OF srt])
qed

lemma wf4_sorted_values:
  assumes srt: "argsort_spec srt" and k: "wf4 keys" and v: "wf4 vals"
    and sh: "shape vals = shape keys"
  shows "wf4 \<lparr>shape = shape keys,
              elems = map2 (\<lambda>vb kb. map2 (\<lambda>vs ks. map (\<lambda>i. vs ! i) (srt (map nrm ks))) vb kb)
                        (elems vals) (elems keys)\<rparr>"
proof -
  have len0: "length (elems vals) = length (elems keys)"
    using k v sh by (simp add: wf4_def)
  have len1: "length vb = length kb" if "(vb, kb) \<in> set (zip (elems vals) (elems keys))" for vb kb
    using wf4_batch [OF k set_zip_rightD [OF that]] wf4_batch [OF v set_zip_leftD [OF that]] sh
    by simp
  have row: "length (vs ! i) = shape keys ! 3"
    if "(vb, kb) \<in> set (zip (elems vals) (elems keys))" "(vs, ks) \<in> set (zip vb kb)"
      "i \<in> set (srt (map nrm ks))" for vb kb vs ks i
  proof -
    have "i < length ks" using that(3) argsort_set [OF srt, of "map nrm ks"] by simp
    moreover have "length ks = shape keys ! 2"
      by (rule wf4_head [OF k set_zip_rightD [OF that(1)] set_zip_rightD [OF that(2)]])
    moreover have "length vs = shape keys ! 2"
      using wf4_head [OF v set_zip_leftD [OF that(1)] set_zip_leftD [OF that(2)]] sh by simp
    ultimately have "vs ! i \<in> set vs" by simp
    then show ?thesis
      using wf4_row [OF v set_zip_leftD [OF that(1)] set_zip_leftD [OF that(2)]] sh by simp
  qed
  have h: "length ks = shape keys ! 2"
    if "(vb, kb) \<in> set (zip (elems vals) (elems keys))" "(vs, ks) \<in> set (zip vb kb)" for vb kb vs ks
    by (rule wf4_head [OF k set_zip_rightD [OF that(1)] set_zip_rightD [OF that(2)]])
  have b: "length kb = shape keys ! 1"
    if "(vb, kb) \<in> set (zip (elems vals) (elems keys))" for vb kb
    by (rule wf4_batch [OF k set_zip_rightD [OF that]])
  show ?thesis
    using k len0 len1 row h b
    by (auto simp: wf4_def list_all_iff argsort_length [OF srt])
qed

lemma compacted_well_shaped:
  assumes srt: "argsort_spec srt" and ws: "well_shaped (keys, vals)"
    and long: "\<not> int (shape keys ! 2) < prune_after" and many: "shape keys ! 2 \<noteq> 1"
    and tk: "tokens_to_keep keep_ratio (shape keys ! 2) = Inr k"
    and res: "compress_layer srt nrm keep_ratio prune_after skip_layers layer (keys, vals) = Inr (ks', vs')"
  shows "well_shaped (ks', vs')"
proof -
  have k: "wf4 keys" and v: "wf4 vals" and sh: "shape vals = shape keys"
    using ws by (simp_all add: well_shaped_def)
  show ?thesis
  proof (cases "layer \<in> set skip_layers")
    case True
    then show ?thesis using res ws by (simp add: compress_layer_sorts [OF srt ws long many tk])
  next
    case False
    then show ?thesis
      using res wf4_slice_seq [OF wf4_sorted_keys [OF srt k]]
        wf4_slice_seq [OF wf4_sorted_values [OF srt k v sh]]
      by (auto simp: compress_layer_sorts [OF srt ws long many tk] well_shaped_def slice_seq_def)
  qed
qed

lemma example_well_shaped: "list_all well_shaped example_cache"
  by (simp add: example_cache_def well_shaped_def wf4_def one_slice_def)

lemma example_run:
  "l2_compress stable_argsort l2_norm example_cache float_0_6 3 [0] = Inr example_result"
  by (simp add: example_cache_def example_result_def eval_defs)

lemma compacted_sorted:
  assumes srt: "argsort_spec srt" and ws: "well_shaped (keys, vals)"
    and long: "\<not> int (shape keys ! 2) < prune_after" and many: "shape keys ! 2 \<noteq> 1"
    and tk: "tokens_to_keep keep_ratio (shape keys ! 2) = Inr k"
    and skip: "layer \<notin> set skip_layers"
    and res: "compress_layer srt nrm keep_ratio prune_after skip_layers layer (keys, vals) = Inr (ks', vs')"
    and b: "b < shape keys ! 0" and h: "h < shape keys ! 1"
  shows "sorted (map nrm (slice_of ks' b h))"
    and "mset (srt (map nrm (slice_of keys b h))) = mset [0..<shape keys ! 2]"
proof -
  let ?ks = "slice_of keys b h"
  let ?idx = "srt (map nrm ?ks)"
  let ?m = "slice_stop (shape keys ! 2) k"
  have k: "wf4 keys" using ws by (simp add: well_shaped_def)
  have len: "length ?ks = shape keys ! 2" by (rule wf4_length_slice [OF k b h])
  show "mset ?idx = mset [0..<shape keys ! 2]"
    using srt by (simp add: argsort_spec_def len)
  have idx_set: "set ?idx = {0..<shape keys ! 2}" by (simp add: argsort_set [OF srt] len)
  have norms: "map (\<lambda>j. map nrm ?ks ! j) ?idx = map (\<lambda>j. nrm (?ks ! j)) ?idx"
    using idx_set len by (intro map_cong) auto
  have "sorted (map (\<lambda>j. nrm (?ks ! j)) ?idx)"
    using argsort_sorted [OF srt, of "map nrm ?ks"] norms by simp
  then have "sorted (take ?m (map (\<lambda>j. nrm (?ks ! j)) ?idx))"
    by (rule sorted_wrt_take)
  then show "sorted (map nrm (slice_of ks' b h))"
    by (simp add: compacted_slices(1) [OF srt ws long many tk skip res b h] take_map comp_def)
qed

subsection \<open>When the call returns\<close>

lemma compress_from_returns:
  assumes "\<forall>i<length kvs. \<exists>r.
             compress_layer srt nrm keep_ratio prune_after skip_layers (layer + i) (kvs ! i) = Inr r"
  shows "\<exists>out. compress_from srt nrm keep_ratio prune_after skip_layers layer kvs = Inr out"
  using assms
proof (induction kvs arbitrary: layer)
  case Nil
  then show ?case by simp
next
  case (Cons kv kvs)
  from Cons.prems obtain r
    where r: "compress_layer srt nrm keep_ratio prune_after skip_layers layer kv = Inr r"
    by fastforce
  have "\<forall>i<length kvs. \<exists>r.
          compress_layer srt nrm keep_ratio prune_after skip_layers (Suc layer + i) (kvs ! i) = Inr r"
    using Cons.prems by fastforce
  from Cons.IH [OF this] obtain rest
    where "compress_from srt nrm keep_ratio prune_after skip_layers (Suc layer) kvs = Inr rest"
    by blast
  with r show ?case by simp
qed

text \<open>
  On layers whose key and value tensors have one size the call returns, unless a layer
  with exactly one token reaches the sort.
\<close>

lemma compress_layer_returns:
  assumes "argsort_spec srt" and "well_shaped kv"
    and "int (size_dim (fst kv) 2) < prune_after \<or>
         size_dim (fst kv) 2 \<noteq> 1 \<and> (\<exists>k. tokens_to_keep keep_ratio (size_dim (fst kv) 2) = Inr k)"
  shows "\<exists>r. compress_layer srt nrm keep_ratio prune_after skip_layers layer kv = Inr r"
proof (cases "int (size_dim (fst kv) 2) < prune_after")
  case True
  then show ?thesis by (simp add: compress_layer_short size_dim_def)
next
  case False
  obtain keys vals where kv: "kv = (keys, vals)" by (cases kv)
  from False assms(3) obtain k where many: "shape keys ! 2 \<noteq> 1"
    and tk: "tokens_to_keep keep_ratio (shape keys ! 2) = Inr k"
    by (auto simp: kv size_dim_def)
  have long: "\<not> int (shape keys ! 2) < prune_after" using False by (simp add: kv size_dim_def)
  have ws: "well_shaped (keys, vals)" using assms(2) by (simp add: kv)
  show ?thesis
    by (simp add: kv compress_layer_sorts [OF assms(1) ws long many tk])
qed

lemma l2_compress_returns:
  assumes "argsort_spec srt" and "list_all well_shaped pkv"
    and "list_all (\<lambda>kv. int (size_dim (fst kv) 2) < prune_after \<or>
           size_dim (fst kv) 2 \<noteq> 1 \<and>
           (\<exists>k. tokens_to_keep keep_ratio (size_dim (fst kv) 2) = Inr k)) pkv"
  shows "\<exists>out. l2_compress srt nrm pkv keep_ratio prune_after skip_layers = Inr out"
proof -
  have "\<exists>r. compress_layer srt nrm keep_ratio prune_after skip_layers (0 + i) (pkv ! i) = Inr r"
    if "i < length pkv" for i
  proof -
    have "well_shaped (pkv ! i)" using assms(2) that by (simp add: list_all_length)
    moreover have "int (size_dim (fst (pkv ! i)) 2) < prune_after \<or>
        size_dim (fst (pkv ! i)) 2 \<noteq> 1 \<and>
        (\<exists>k. tokens_to_keep keep_ratio (size_dim (fst (pkv ! i)) 2) = Inr k)"
      using assms(3) that by (simp add: list_all_length)
    ultimately show ?thesis by (rule compress_layer_returns [OF assms(1)])
  qed
  then show ?thesis
    unfolding l2_compress_def by (intro compress_from_returns) blast
qed

text \<open>
  When \<open>tokens_to_keep\<close> is at least the number of tokens, the slice is the whole tensor,
  as it is for the ratio 1.
\<close>

lemma slice_stop_above: "int n \<le> k \<Longrightarrow> slice_stop n k = n"
  by (auto simp: slice_stop_def)

lemma slice_seq_full: "int (shape t ! 2) \<le> k \<Longrightarrow> slice_seq k t = slice_seq (int (shape t ! 2)) t"
  by (simp add: slice_seq_def slice_stop_above)

lemma compress_layer_above:
  assumes srt: "argsort_spec srt" and ws: "well_shaped kv"
    and full: "int (size_dim (fst kv) 2) < prune_after \<or>
         (\<exists>k. tokens_to_keep keep_ratio (size_dim (fst kv) 2) = Inr k \<and>
              int (size_dim (fst kv) 2) \<le> k)"
  shows "compress_layer srt nrm keep_ratio prune_after skip_layers layer kv =
         compress_layer srt nrm (PyInt 1) prune_after skip_layers layer kv"
proof -
  obtain keys vals where kv: "kv = (keys, vals)" by (cases kv)
  have k: "wf4 keys" using ws by (simp add: kv well_shaped_def)
  consider "int (shape keys ! 2) < prune_after"
    | "\<not> int (shape keys ! 2) < prune_after" "shape keys ! 2 = 1"
    | "\<not> int (shape keys ! 2) < prune_after" "shape keys ! 2 \<noteq> 1"
    by blast
  then show ?thesis
  proof cases
    case 1
    then show ?thesis by (simp add: kv compress_layer_short)
  next
    case 2
    then obtain k' where "tokens_to_keep keep_ratio 1 = Inr k'"
      using full by (auto simp: kv size_dim_def)
    then show ?thesis using 2 k by (simp add: kv compress_layer_single tokens_to_keep_int)
  next
    case 3
    then obtain k' where tk: "tokens_to_keep keep_ratio (shape keys ! 2) = Inr k'"
      and le: "int (shape keys ! 2) \<le> k'"
      using full by (auto simp: kv size_dim_def)
    have one: "tokens_to_keep (PyInt 1) (shape keys ! 2) = Inr (int (shape keys ! 2))"
      by (simp add: tokens_to_keep_int)
    have "slice_seq k' t = slice_seq (int (shape keys ! 2)) t"
      if "shape t = shape keys" for t :: "real tensor4"
      using slice_seq_full [of t k'] le that by simp
    then show ?thesis
      using ws
      by (simp add: kv compress_layer_sorts [OF srt _ 3 tk] compress_layer_sorts [OF srt _ 3 one])
  qed
qed

lemma l2_compress_above:
  assumes "argsort_spec srt" and "list_all well_shaped pkv"
    and "list_all (\<lambda>kv. int (size_dim (fst kv) 2) < prune_after \<or>
           (\<exists>k. tokens_to_keep keep_ratio (size_dim (fst kv) 2) = Inr k \<and>
                int (size_dim (fst kv) 2) \<le> k)) pkv"
  shows "l2_compress srt nrm pkv keep_ratio prune_after skip_layers =
         l2_compress srt nrm pkv (PyInt 1) prune_after skip_layers"
proof -
  have "compress_from srt nrm keep_ratio prune_after skip_layers layer kvs =
        compress_from srt nrm (PyInt 1) prune_after skip_layers layer kvs"
    if "list_all well_shaped kvs"
      and "list_all (\<lambda>kv. int (size_dim (fst kv) 2) < prune_after \<or>
           (\<exists>k. tokens_to_keep keep_ratio (size_dim (fst kv) 2) = Inr k \<and>
                int (size_dim (fst kv) 2) \<le> k)) kvs" for layer kvs
    using that
  proof (induction kvs arbitrary: layer)
    case Nil
    then show ?case by simp
  next
    case (Cons kv kvs)
    have "compress_layer srt nrm keep_ratio prune_after skip_layers layer kv =
          compress_layer srt nrm (PyInt 1) prune_after skip_layers layer kv"
      using Cons.prems by (intro compress_layer_above [OF assms(1)]) simp_all
    moreover have "compress_from srt nrm keep_ratio prune_after skip_layers (Suc layer) kvs =
          compress_from srt nrm (PyInt 1) prune_after skip_layers (Suc layer) kvs"
      using Cons.prems by (intro Cons.IH) simp_all
    ultimately show ?case by (simp only: compress_from.simps)
  qed
  then show ?thesis using assms(2,3) by (simp add: l2_compress_def)
qed

lemma kept_all_slices:
  assumes srt: "argsort_spec srt" and ws: "well_shaped (keys, vals)"
    and long: "\<not> int (shape keys ! 2) < prune_after" and many: "shape keys ! 2 \<noteq> 1"
    and tk: "tokens_to_keep keep_ratio (shape keys ! 2) = Inr k"
    and skip: "layer \<notin> set skip_layers"
    and res: "compress_layer srt nrm keep_ratio prune_after skip_layers layer (keys, vals) = Inr (ks', vs')"
    and b: "b < shape keys ! 0" and h: "h < shape keys ! 1"
    and full: "int (shape keys ! 2) \<le> k"
  shows "\<exists>perm. mset perm = mset [0..<shape keys ! 2] \<and>
           slice_of ks' b h = map (\<lambda>j. slice_of keys b h ! j) perm \<and>
           slice_of vs' b h = map (\<lambda>j. slice_of vals b h ! j) perm \<and>
           sorted (map nrm (slice_of ks' b h))"
proof -
  let ?idx = "srt (map nrm (slice_of keys b h))"
  have k: "wf4 keys" using ws by (simp add: well_shaped_def)
  have "length ?idx = shape keys ! 2"
    by (simp add: argsort_length [OF srt] wf4_length_slice [OF k b h])
  then have "take (slice_stop (shape keys ! 2) k) ?idx = ?idx"
    by (simp add: slice_stop_above [OF full])
  then have "slice_of ks' b h = map (\<lambda>j. slice_of keys b h ! j) ?idx"
    and "slice_of vs' b h = map (\<lambda>j. slice_of vals b h ! j) ?idx"
    using compacted_slices [OF srt ws long many tk skip res b h] by simp_all
  then show ?thesis
    using compacted_sorted [OF srt ws long many tk skip res b h] by blast
qed

lemma unchanged_slices:
  assumes ws: "well_shaped (keys, vals)" and b: "b < shape keys ! 0" and h: "h < shape keys ! 1"
  shows "\<exists>perm. mset perm = mset [0..<shape keys ! 2] \<and>
           slice_of keys b h = map (\<lambda>j. slice_of keys b h ! j) perm \<and>
           slice_of vals b h = map (\<lambda>j. slice_of vals b h ! j) perm"
proof -
  have k: "wf4 keys" and v: "wf4 vals" and sh: "shape vals = shape keys"
    using ws by (simp_all add: well_shaped_def)
  have lk: "length (slice_of keys b h) = shape keys ! 2" by (rule wf4_length_slice [OF k b h])
  have lv: "length (slice_of vals b h) = shape keys ! 2"
    using wf4_length_slice [OF v, of b h] b h sh by simp
  have "slice_of keys b h = map (\<lambda>j. slice_of keys b h ! j) [0..<shape keys ! 2]"
    and "slice_of vals b h = map (\<lambda>j. slice_of vals b h ! j) [0..<shape keys ! 2]"
    using map_nth [of "slice_of keys b h"] map_nth [of "slice_of vals b h"]
    unfolding lk lv by simp_all
  then show ?thesis by blast
qed

lemma example_no_single:
  "list_all (\<lambda>kv. size_dim (fst kv) 2 \<noteq> 1 \<or> int (size_dim (fst kv) 2) < 3) example_cache"
  by (simp add: example_cache_def size_dim_def one_slice_def)

lemma example_run_one:
  "l2_compress stable_argsort l2_norm example_cache (PyInt 1) 3 [0] =
   Inr [(one_slice 1 [[3], [1], [2]], one_slice 1 [[30], [10], [20]]),
        (one_slice 1 [[1], [2], [3]], one_slice 1 [[10], [20], [30]]),
        (one_slice 1 [[2], [1]], one_slice 1 [[20], [10]])]"
  by (simp add: example_cache_def eval_defs)

text \<open>When \<open>gather\<close> accepts the index tensor built from the keys.\<close>

lemma index_in_bounds_iff:
  assumes srt: "argsort_spec srt" and k: "wf4 keys"
  shows "list_all (list_all (list_all (list_all (\<lambda>i. i < n))))
           (map (map (\<lambda>s. map (replicate (shape keys ! 3)) (srt (map nrm s)))) (elems keys)) \<longleftrightarrow>
         shape keys ! 2 \<le> n \<or> shape keys ! 0 = 0 \<or> shape keys ! 1 = 0 \<or> shape keys ! 3 = 0"
proof
  assume all: "list_all (list_all (list_all (list_all (\<lambda>i. i < n))))
           (map (map (\<lambda>s. map (replicate (shape keys ! 3)) (srt (map nrm s)))) (elems keys))"
  show "shape keys ! 2 \<le> n \<or> shape keys ! 0 = 0 \<or> shape keys ! 1 = 0 \<or> shape keys ! 3 = 0"
  proof (rule ccontr)
    assume "\<not> ?thesis"
    then have n: "n < shape keys ! 2" and b: "0 < shape keys ! 0" and h: "0 < shape keys ! 1"
      and d: "0 < shape keys ! 3" by simp_all
    let ?kb = "elems keys ! 0"
    let ?ks = "?kb ! 0"
    have kb: "?kb \<in> set (elems keys)" using b wf4_length [OF k] by simp
    have ks: "?ks \<in> set ?kb" using h wf4_length_batch [OF k b] by simp
    have "length ?ks = shape keys ! 2" by (rule wf4_head [OF k kb ks])
    then have "n \<in> set (srt (map nrm ?ks))"
      using n by (simp add: argsort_set [OF srt])
    moreover have "n \<in> set (replicate (shape keys ! 3) n)" using d by simp
    ultimately have "n < n"
      using all kb ks by (auto simp: list_all_iff)
    then show False by simp
  qed
next
  assume "shape keys ! 2 \<le> n \<or> shape keys ! 0 = 0 \<or> shape keys ! 1 = 0 \<or> shape keys ! 3 = 0"
  then consider (1) "shape keys ! 2 \<le> n" | (2) "shape keys ! 0 = 0" | (3) "shape keys ! 1 = 0"
    | (4) "shape keys ! 3 = 0" by fastforce
  then show "list_all (list_all (list_all (list_all (\<lambda>i. i < n))))
           (map (map (\<lambda>s. map (replicate (shape keys ! 3)) (srt (map nrm s)))) (elems keys))"
  proof cases
    case 1
    have "i < n" if "kb \<in> set (elems keys)" "ks \<in> set kb" "i \<in> set (srt (map nrm ks))"
      for kb ks i
    proof -
      have "i < length ks" using that(3) argsort_set [OF srt, of "map nrm ks"] by simp
      then show ?thesis using wf4_head [OF k that(1,2)] 1 by simp
    qed
    then show ?thesis by (auto simp: list_all_iff)
  next
    case 2
    then have "elems keys = []" using wf4_length [OF k] by simp
    then show ?thesis by simp
  next
    case 3
    then have "set kb = {}" if "kb \<in> set (elems keys)" for kb
      using wf4_batch [OF k that] by simp
    then show ?thesis by (fastforce simp: list_all_iff)
  next
    case 4
    then show ?thesis by (auto simp: list_all_iff)
  qed
qed

lemma compress_layer_returns_iff:
  assumes srt: "argsort_spec srt" and k: "wf4 (fst kv)" and v: "wf4 (snd kv)"
    and many: "size_dim (fst kv) 2 \<noteq> 1 \<or> int (size_dim (fst kv) 2) < prune_after"
  shows "(\<exists>r. compress_layer srt nrm keep_ratio prune_after skip_layers layer kv = Inr r) \<longleftrightarrow>
         int (size_dim (fst kv) 2) < prune_after \<or>
         (\<exists>k. tokens_to_keep keep_ratio (size_dim (fst kv) 2) = Inr k) \<and> \<not> values_too_small kv"
proof (cases "int (size_dim (fst kv) 2) < prune_after")
  case True
  then show ?thesis by (simp add: compress_layer_short size_dim_def)
next
  case False
  obtain keys vals where kv: "kv = (keys, vals)" by (cases kv)
  have k': "wf4 keys" and v': "wf4 vals" using k v by (simp_all add: kv)
  have m: "shape keys ! 2 \<noteq> 1" using many False by (simp add: kv size_dim_def)
  obtain a b c d where s: "shape keys = [a, b, c, d]"
    using k' by (auto simp: wf4_def length4_conv)
  let ?idx = "\<lparr>shape = shape keys,
            elems = map (map (\<lambda>s. map (replicate (shape keys ! 3)) (srt (map nrm s))))
                      (elems keys)\<rparr>"
  have "(\<exists>r. gather2 vals ?idx = Inr r) \<longleftrightarrow> \<not> values_too_small (keys, vals)"
    using index_in_bounds_iff [OF srt k', of "shape vals ! 2"]
    by (auto simp: gather2_def values_too_small_def size_dim_def s)
  moreover have "(\<exists>r. compress_layer srt nrm keep_ratio prune_after skip_layers layer (keys, vals) = Inr r)
      \<longleftrightarrow> (\<exists>k. tokens_to_keep keep_ratio (shape keys ! 2) = Inr k) \<and>
          (\<exists>r. gather2 vals ?idx = Inr r)"
    using False
    by (auto simp: compress_layer_def size_dim_def Let_def wf4_last [OF k'] kv
        sorted_indices_expanded_many [OF k' m] gather2_sorted_keys [OF srt k']
        split: sum.splits)
  ultimately show ?thesis using False by (simp add: kv size_dim_def)
qed

lemma l2_compress_returns_iff:
  "(\<exists>out. l2_compress srt nrm pkv keep_ratio prune_after skip_layers = Inr out) \<longleftrightarrow>
   (\<forall>i<length pkv. \<exists>r. compress_layer srt nrm keep_ratio prune_after skip_layers i (pkv ! i) = Inr r)"
proof
  assume "\<exists>out. l2_compress srt nrm pkv keep_ratio prune_after skip_layers = Inr out"
  then show "\<forall>i<length pkv. \<exists>r. compress_layer srt nrm keep_ratio prune_after skip_layers i (pkv ! i) = Inr r"
    by (auto simp: l2_compress_Inr_iff)
next
  assume "\<forall>i<length pkv. \<exists>r. compress_layer srt nrm keep_ratio prune_after skip_layers i (pkv ! i) = Inr r"
  then show "\<exists>out. l2_compress srt nrm pkv keep_ratio prune_after skip_layers = Inr out"
    unfolding l2_compress_def by (intro compress_from_returns) simp
qed

text \<open>
  A layer of exactly one token that reaches the sort makes the call fail, whatever
  \<open>keep_ratio\<close> and \<open>skip_layers\<close> are: \<open>squeeze(-1)\<close> drops the sequence axis of the
  norms, the index tensor has rank 3 after \<open>unsqueeze(-1)\<close>, and \<open>expand\<close> with four
  sizes refuses the \<open>-1\<close> for the axis it would have to add.
\<close>

lemma l2_compress_single_token:
  assumes "i < length pkv" and "wf4 (fst (pkv ! i))" and "size_dim (fst (pkv ! i)) 2 = 1"
    and "prune_after \<le> 1"
  shows "\<exists>e. l2_compress srt nrm pkv keep_ratio prune_after skip_layers = Inl e"
proof (cases "l2_compress srt nrm pkv keep_ratio prune_after skip_layers")
  case (Inl e)
  then show ?thesis by blast
next
  case (Inr out)
  then have "compress_layer srt nrm keep_ratio prune_after skip_layers i (pkv ! i) = Inr (out ! i)"
    using assms(1) by (simp add: l2_compress_Inr_iff)
  moreover have "\<exists>e. compress_layer srt nrm keep_ratio prune_after skip_layers i (pkv ! i) = Inl e"
    using assms(2,3,4) by (intro compress_layer_single_fails) (simp_all add: size_dim_def)
  ultimately show ?thesis by auto
qed

text \<open>Every sorting routine puts the norms of a slice in the same order.\<close>

lemma sorted_norms_unique:
  assumes "argsort_spec srt"
  shows "map (\<lambda>j. nrm (ks ! j)) (srt (map nrm ks)) = sort (map nrm ks)"
proof -
  let ?ns = "map nrm ks"
  have set_idx: "set (srt ?ns) = {0..<length ks}" using argsort_set [OF assms, of ?ns] by simp
  have eq: "map (\<lambda>j. nrm (ks ! j)) (srt ?ns) = map (\<lambda>j. ?ns ! j) (srt ?ns)"
    using set_idx by (intro map_cong) auto
  have "mset (map (\<lambda>j. ?ns ! j) (srt ?ns)) = image_mset (\<lambda>j. ?ns ! j) (mset [0..<length ?ns])"
    using assms by (simp add: argsort_spec_def)
  also have "\<dots> = mset (map (\<lambda>j. ?ns ! j) [0..<length ?ns])" by simp
  also have "\<dots> = mset ?ns" by (simp only: map_nth)
  finally have "mset (map (\<lambda>j. ?ns ! j) (srt ?ns)) = mset ?ns" .
  moreover have "sorted (map (\<lambda>j. ?ns ! j) (srt ?ns))" by (rule argsort_sorted [OF assms])
  ultimately have "sort ?ns = map (\<lambda>j. ?ns ! j) (srt ?ns)" by (rule properties_for_sort)
  then show ?thesis using eq by simp
qed

lemma norm_last_compacted:
  assumes "argsort_spec srt"
  shows "norm_last nrm (slice_seq k
           \<lparr>shape = s,
            elems = map (map (\<lambda>ks. map (\<lambda>i. ks ! i) (srt (map nrm ks)))) e\<rparr>) =
         \<lparr>shape = butlast (s[2 := slice_stop (s ! 2) k]),
          elems = map (map (\<lambda>ks. take (slice_stop (s ! 2) k) (sort (map nrm ks)))) e\<rparr>"
  by (simp add: norm_last_def slice_seq_def comp_def take_map [symmetric]
      sorted_norms_unique [OF assms])

subsection \<open>The store\<close>























section \<open>Claims\<close>

subsection \<open>C1: the ratio 1\<close>

text \<open>
  C1, as amended. With \<open>keep_ratio = 1\<close> a call that returns drops no token: every layer
  keeps its size, a layer that is skipped or shorter than \<open>prune_after\<close> is returned as it
  is, and in every (batch, head) slice of every layer the output key rows and value rows
  are the input rows under one permutation of the token positions. In a compacted layer
  that permutation puts the rows in ascending order of key norm; it is not the identity in
  general. The ratio is the \<open>int\<close> 1, the default of the function, or the \<open>float\<close> 1.0; for
  the float no layer has more than \<open>2^53\<close> tokens, so that the number of tokens is a float.
\<close>

theorem keep_all_reorders:
  assumes "argsort_spec srt" and "list_all well_shaped pkv"
    and "keep_ratio = PyInt 1 \<or>
         keep_ratio = PyFloat (Fin 1) \<and> list_all (\<lambda>kv. size_dim (fst kv) 2 \<le> 2 ^ 53) pkv"
    and "l2_compress srt nrm pkv keep_ratio prune_after skip_layers = Inr out"
    and "i < length pkv"
  shows "length out = length pkv \<and>
         shape (fst (out ! i)) = shape (fst (pkv ! i)) \<and>
         shape (snd (out ! i)) = shape (snd (pkv ! i)) \<and>
         (i \<in> set skip_layers \<or> int (size_dim (fst (pkv ! i)) 2) < prune_after \<longrightarrow>
            out ! i = pkv ! i) \<and>
         (\<forall>b<size_dim (fst (pkv ! i)) 0. \<forall>h<size_dim (fst (pkv ! i)) 1.
            \<exists>perm. mset perm = mset [0..<size_dim (fst (pkv ! i)) 2] \<and>
              slice_of (fst (out ! i)) b h = map (\<lambda>j. slice_of (fst (pkv ! i)) b h ! j) perm \<and>
              slice_of (snd (out ! i)) b h = map (\<lambda>j. slice_of (snd (pkv ! i)) b h ! j) perm \<and>
              (i \<notin> set skip_layers \<and> \<not> int (size_dim (fst (pkv ! i)) 2) < prune_after \<longrightarrow>
                 sorted (map nrm (slice_of (fst (out ! i)) b h))))"
proof -
  let ?keys = "fst (pkv ! i)" and ?vals = "snd (pkv ! i)"
  let ?n = "shape ?keys ! 2"
  have len: "length out = length pkv" using assms(4) by (simp add: l2_compress_Inr_iff)
  note L = returned_layer [OF assms(2,4,5)]
  have tk: "tokens_to_keep keep_ratio ?n = Inr (int ?n)"
  proof (cases "keep_ratio = PyInt 1")
    case True
    then show ?thesis by (simp add: tokens_to_keep_int)
  next
    case False
    then have r: "keep_ratio = PyFloat (Fin 1)" and "?n \<le> 2 ^ 53"
      using assms(3,5) by (simp_all add: list_all_length size_dim_def)
    then show ?thesis by (intro tokens_to_keep_one) (simp_all add: ratio_value_def)
  qed
  have sh: "shape ?vals = shape ?keys" using L(1) by (simp add: well_shaped_def)
  have len4: "length (shape ?keys) = 4" using L(1) by (simp add: well_shaped_def wf4_def)
  show ?thesis
  proof (cases "i \<in> set skip_layers \<or> int (size_dim ?keys 2) < prune_after")
    case True
    have same: "out ! i = pkv ! i" by (rule returned_layer_unchanged [OF assms(4,5) True])
    have "\<exists>perm. mset perm = mset [0..<size_dim ?keys 2] \<and>
              slice_of (fst (out ! i)) b h = map (\<lambda>j. slice_of ?keys b h ! j) perm \<and>
              slice_of (snd (out ! i)) b h = map (\<lambda>j. slice_of ?vals b h ! j) perm \<and>
              (i \<notin> set skip_layers \<and> \<not> int (size_dim ?keys 2) < prune_after \<longrightarrow>
                 sorted (map nrm (slice_of (fst (out ! i)) b h)))"
      if "b < size_dim ?keys 0" "h < size_dim ?keys 1" for b h
      using unchanged_slices [OF L(1), of b h] that True by (auto simp: same size_dim_def)
    then show ?thesis using len same by simp
  next
    case False
    from False have skip: "i \<notin> set skip_layers"
      and long: "\<not> int (size_dim ?keys 2) < prune_after" by simp_all
    have full: "int ?n \<le> int ?n" by simp
    have s1: "shape (fst (out ! i)) = shape ?keys"
      using compacted_shapes(1) [OF assms(1) L(1) L(4) [OF long] L(3) [OF long] tk skip L(2)]
      by (simp add: slice_stop_above)
    have s2: "shape (snd (out ! i)) = shape ?vals"
      using compacted_shapes(2) [OF assms(1) L(1) L(4) [OF long] L(3) [OF long] tk skip L(2)] s1 sh
      by simp
    have "\<exists>perm. mset perm = mset [0..<size_dim ?keys 2] \<and>
              slice_of (fst (out ! i)) b h = map (\<lambda>j. slice_of ?keys b h ! j) perm \<and>
              slice_of (snd (out ! i)) b h = map (\<lambda>j. slice_of ?vals b h ! j) perm \<and>
              (i \<notin> set skip_layers \<and> \<not> int (size_dim ?keys 2) < prune_after \<longrightarrow>
                 sorted (map nrm (slice_of (fst (out ! i)) b h)))"
      if "b < size_dim ?keys 0" "h < size_dim ?keys 1" for b h
      using kept_all_slices [OF assms(1) L(1) L(4) [OF long] L(3) [OF long] tk skip L(2) _ _ full, of b h]
        that by (auto simp: size_dim_def)
    then show ?thesis using len s1 s2 False by simp
  qed
qed

theorem keep_all_reorders_witness:
  "argsort_spec stable_argsort \<and> list_all well_shaped example_cache \<and>
   l2_compress stable_argsort l2_norm example_cache (PyInt 1) 3 [0] =
   Inr [(one_slice 1 [[3], [1], [2]], one_slice 1 [[30], [10], [20]]),
        (one_slice 1 [[1], [2], [3]], one_slice 1 [[10], [20], [30]]),
        (one_slice 1 [[2], [1]], one_slice 1 [[20], [10]])] \<and>
   shape (one_slice 1 [[1], [2], [3 :: real]]) = shape (fst (example_cache ! 1)) \<and>
   (\<exists>perm. mset perm = mset [0..<3] \<and>
      [[1], [2], [3]] = map (\<lambda>j. [[3], [1], [2 :: real]] ! j) perm \<and>
      [[10], [20], [30]] = map (\<lambda>j. [[30], [10], [20 :: real]] ! j) perm \<and>
      sorted (map l2_norm [[1], [2], [3]]))"
proof -
  have i1: "(1 :: nat) < length example_cache" by (simp add: example_cache_def)
  have one: "PyInt 1 = PyInt 1 \<or>
      PyInt 1 = PyFloat (Fin 1) \<and> list_all (\<lambda>kv. size_dim (fst kv) 2 \<le> 2 ^ 53) example_cache"
    by simp
  note T = keep_all_reorders [OF stable_argsort_spec example_well_shaped one example_run_one i1]
  have n: "size_dim (fst (example_cache ! 1)) 2 = 3" "size_dim (fst (example_cache ! 1)) 0 = 1"
    "size_dim (fst (example_cache ! 1)) 1 = 1"
    by (simp_all add: example_cache_def size_dim_def one_slice_def)
  have sl: "elems (fst (example_cache ! Suc 0)) ! 0 ! 0 = [[3], [1], [2]]"
    "elems (snd (example_cache ! Suc 0)) ! 0 ! 0 = [[30], [10], [20]]"
    by (simp_all add: example_cache_def one_slice_def)
  from T have a: "shape (one_slice 1 [[1], [2], [3 :: real]]) = shape (fst (example_cache ! 1))"
    by simp
  from T have "\<forall>b<size_dim (fst (example_cache ! 1)) 0. \<forall>h<size_dim (fst (example_cache ! 1)) 1.
            \<exists>perm. mset perm = mset [0..<size_dim (fst (example_cache ! 1)) 2] \<and>
              slice_of (one_slice 1 [[1], [2], [3]]) b h =
                map (\<lambda>j. slice_of (fst (example_cache ! 1)) b h ! j) perm \<and>
              slice_of (one_slice 1 [[10], [20], [30]]) b h =
                map (\<lambda>j. slice_of (snd (example_cache ! 1)) b h ! j) perm \<and>
              (1 \<notin> set [0 :: nat] \<and> \<not> int (size_dim (fst (example_cache ! 1)) 2) < 3 \<longrightarrow>
                 sorted (map l2_norm (slice_of (one_slice 1 [[1], [2], [3]]) b h)))"
    by simp
  then have b: "\<exists>perm. mset perm = mset [0..<3] \<and>
      [[1], [2], [3]] = map (\<lambda>j. [[3], [1], [2 :: real]] ! j) perm \<and>
      [[10], [20], [30]] = map (\<lambda>j. [[30], [10], [20 :: real]] ! j) perm \<and>
      sorted (map l2_norm [[1], [2], [3]])"
    unfolding n by (simp add: slice_of_def one_slice_def sl)
  show ?thesis
    using stable_argsort_spec example_well_shaped example_run_one a b by blast
qed

text \<open>
  The claim as stated (the identity, with the order of the tokens preserved) fails on a
  layer that reaches the sort: two tokens with key norms 2 and 1 come back in the order
  1, 2, keys and values alike.
\<close>

theorem keep_all_reorders_counterexample:
  "l2_compress stable_argsort l2_norm [(one_slice 1 [[2], [1]], one_slice 1 [[20], [10]])]
     (PyInt 1) 2 [] =
   Inr [(one_slice 1 [[1], [2]], one_slice 1 [[10], [20]])] \<and>
   (one_slice 1 [[1], [2 :: real]], one_slice 1 [[10], [20 :: real]]) \<noteq>
   (one_slice 1 [[2], [1]], one_slice 1 [[20], [10]])"
  by (simp add: eval_defs)

subsection \<open>C7: keys and values move together\<close>

text \<open>
  C7. In every layer of the result and every (batch, head) slice, one list of distinct
  token positions of the input gives both the output key rows and the output value rows:
  row \<open>t\<close> of the output keys and row \<open>t\<close> of the output values are the key and the value
  of the same input token.
\<close>

theorem key_value_pairing:
  assumes "argsort_spec srt" and "list_all well_shaped pkv"
    and "l2_compress srt nrm pkv keep_ratio prune_after skip_layers = Inr out"
    and "i < length pkv"
    and "b < size_dim (fst (pkv ! i)) 0" and "h < size_dim (fst (pkv ! i)) 1"
  shows "\<exists>sel. distinct sel \<and> set sel \<subseteq> {0..<size_dim (fst (pkv ! i)) 2} \<and>
           slice_of (fst (out ! i)) b h = map (\<lambda>j. slice_of (fst (pkv ! i)) b h ! j) sel \<and>
           slice_of (snd (out ! i)) b h = map (\<lambda>j. slice_of (snd (pkv ! i)) b h ! j) sel"
proof (cases "i \<in> set skip_layers \<or> int (size_dim (fst (pkv ! i)) 2) < prune_after")
  case True
  let ?keys = "fst (pkv ! i)" and ?vals = "snd (pkv ! i)"
  let ?n = "size_dim ?keys 2"
  have same: "out ! i = pkv ! i" by (rule returned_layer_unchanged [OF assms(3,4) True])
  have ws: "well_shaped (?keys, ?vals)" by (rule returned_layer(1) [OF assms(2,3,4)])
  then have k: "wf4 ?keys" and v: "wf4 ?vals" and sh: "shape ?vals = shape ?keys"
    by (simp_all add: well_shaped_def)
  have b: "b < shape ?keys ! 0" and h: "h < shape ?keys ! 1"
    using assms(5,6) by (simp_all add: size_dim_def)
  have lk: "length (slice_of ?keys b h) = ?n"
    using wf4_length_slice [OF k b h] by (simp add: size_dim_def)
  have lv: "length (slice_of ?vals b h) = ?n"
    using wf4_length_slice [OF v, of b h] b h sh by (simp add: size_dim_def)
  have "slice_of ?keys b h = map (\<lambda>j. slice_of ?keys b h ! j) [0..<?n]"
    and "slice_of ?vals b h = map (\<lambda>j. slice_of ?vals b h ! j) [0..<?n]"
    using map_nth [of "slice_of ?keys b h"] map_nth [of "slice_of ?vals b h"]
    unfolding lk lv by simp_all
  then have "distinct [0..<?n] \<and> set [0..<?n] \<subseteq> {0..<?n} \<and>
      slice_of (fst (out ! i)) b h = map (\<lambda>j. slice_of ?keys b h ! j) [0..<?n] \<and>
      slice_of (snd (out ! i)) b h = map (\<lambda>j. slice_of ?vals b h ! j) [0..<?n]"
    using same by simp
  then show ?thesis by blast
next
  case False
  let ?keys = "fst (pkv ! i)" and ?vals = "snd (pkv ! i)"
  let ?n = "shape ?keys ! 2"
  let ?idx = "srt (map nrm (slice_of ?keys b h))"
  from False have skip: "i \<notin> set skip_layers"
    and long: "\<not> int (size_dim ?keys 2) < prune_after" by simp_all
  note L = returned_layer [OF assms(2,3,4)]
  from L(5) [OF long] obtain k where tk: "tokens_to_keep keep_ratio ?n = Inr k" by blast
  let ?m = "slice_stop ?n k"
  have k: "wf4 ?keys" using L(1) by (simp add: well_shaped_def)
  have b: "b < shape ?keys ! 0" and h: "h < shape ?keys ! 1"
    using assms(5,6) by (simp_all add: size_dim_def)
  note S = compacted_slices [OF assms(1) L(1) L(4) [OF long] L(3) [OF long] tk skip L(2) b h]
  have "distinct (take ?m ?idx)"
    using argsort_distinct [OF assms(1)] by (rule distinct_take)
  moreover have "set (take ?m ?idx) \<subseteq> {0..<size_dim ?keys 2}"
    using set_take_subset [of ?m ?idx] argsort_set [OF assms(1), of "map nrm (slice_of ?keys b h)"]
      wf4_length_slice [OF k b h] by (simp add: size_dim_def)
  ultimately show ?thesis using S by blast
qed

theorem key_value_pairing_witness:
  "argsort_spec stable_argsort \<and>
   list_all well_shaped [(one_slice 1 [[3], [1], [2]], one_slice 1 [[30], [10], [20]])] \<and>
   l2_compress stable_argsort l2_norm [(one_slice 1 [[3], [1], [2]], one_slice 1 [[30], [10], [20]])]
     float_0_6 2 [] =
   Inr [(one_slice 1 [[1], [2]], one_slice 1 [[10], [20]])] \<and>
   (\<exists>sel. distinct sel \<and> set sel \<subseteq> {0..<3} \<and>
      [[1], [2]] = map (\<lambda>j. [[3], [1], [2 :: real]] ! j) sel \<and>
      [[10], [20]] = map (\<lambda>j. [[30], [10], [20 :: real]] ! j) sel)"
proof -
  let ?pkv = "[(one_slice 1 [[3], [1], [2 :: real]], one_slice 1 [[30], [10], [20 :: real]])]"
  let ?out = "[(one_slice 1 [[1], [2 :: real]], one_slice 1 [[10], [20 :: real]])]"
  have h1: "argsort_spec stable_argsort" by (rule stable_argsort_spec)
  have h2: "list_all well_shaped ?pkv" by (simp add: well_shaped_def wf4_def one_slice_def)
  have h3: "l2_compress stable_argsort l2_norm ?pkv float_0_6 2 [] = Inr ?out" by (simp add: eval_defs)
  have h4: "0 < length ?pkv" by simp
  have h5: "0 < size_dim (fst (?pkv ! 0)) 0" and h6: "0 < size_dim (fst (?pkv ! 0)) 1"
    by (simp_all add: size_dim_def one_slice_def)
  from key_value_pairing [OF h1 h2 h3 h4 h5 h6]
  have "\<exists>sel. distinct sel \<and> set sel \<subseteq> {0..<3} \<and>
      [[1], [2]] = map (\<lambda>j. [[3], [1], [2 :: real]] ! j) sel \<and>
      [[10], [20]] = map (\<lambda>j. [[30], [10], [20 :: real]] ! j) sel"
    by (simp add: size_dim_def one_slice_def slice_of_def numeral_3_eq_3 [symmetric])
  with h1 h2 h3 show ?thesis by blast
qed

subsection \<open>C9: no side effects\<close>



end
